theory Spec2Isabelle
  imports Complex_Main "HOL-Library.Sublist"
begin

section \<open>Zero-crossing refinement (graf\_zerocross/makechart.py)\<close>

text \<open>
  The scripts compute on numpy arrays of float64. An array is modelled as a list, and a
  sample as a real number: comparisons, maxima and the selection of indices are exact
  operations on floats as well. The arithmetic of the interpolation is given twice: with
  exact \<open>+\<close>, \<open>-\<close>, \<open>*\<close> and \<open>/\<close>, for what the formula denotes, and further below with
  every operation rounded to float64, for the order of the computed values. The special
  values inf and NaN are outside the model.
\<close>

datatype py_error = IndexError | ValueError

text \<open>\<open>xs[i]\<close> for a non-negative index: raises IndexError out of range.\<close>

definition getitem :: "'a list \<Rightarrow> nat \<Rightarrow> py_error + 'a" where
  "getitem xs i = (if i < length xs then Inr (xs ! i) else Inl IndexError)"

text \<open>
  \<^verbatim>\<open>sign_change_indices = np.where((voltage[:-1] < 0) & (voltage[1:] >= 0))[0]\<close>:
  the two slices are compared elementwise, and \<open>np.where\<close> lists the positions of the
  true entries in increasing order.
\<close>

definition sign_change_mask :: "real list \<Rightarrow> bool list" where
  "sign_change_mask voltage = map2 (\<lambda>a b. a < 0 \<and> b \<ge> 0) (butlast voltage) (tl voltage)"

definition np_where :: "bool list \<Rightarrow> nat list" where
  "np_where condition = filter (\<lambda>i. condition ! i) [0..<length condition]"

definition sign_change_indices :: "real list \<Rightarrow> nat list" where
  "sign_change_indices voltage = np_where (sign_change_mask voltage)"

text \<open>
  The interpolation formula of the loop body, \<^verbatim>\<open>t1 - v1 * (t2 - t1) / (v2 - v1)\<close>, in
  exact arithmetic.
\<close>

definition t_zero :: "real \<Rightarrow> real \<Rightarrow> real \<Rightarrow> real \<Rightarrow> real" where
  "t_zero t1 v1 t2 v2 = t1 - v1 * (t2 - t1) / (v2 - v1)"

text \<open>
  One pass of the loop body for the index \<open>idx\<close>: the four reads, in the order of the
  source, and the value appended to \<open>candidates\<close>.
\<close>

definition candidate :: "real list \<Rightarrow> real list \<Rightarrow> nat \<Rightarrow> py_error + real" where
  "candidate t voltage idx =
     (case getitem voltage idx of Inl e \<Rightarrow> Inl e | Inr v1 \<Rightarrow>
     (case getitem voltage (idx + 1) of Inl e \<Rightarrow> Inl e | Inr v2 \<Rightarrow>
     (case getitem t idx of Inl e \<Rightarrow> Inl e | Inr t1 \<Rightarrow>
     (case getitem t (idx + 1) of Inl e \<Rightarrow> Inl e | Inr t2 \<Rightarrow>
        Inr (if v2 \<noteq> v1 then t_zero t1 v1 t2 v2 else t1)))))"

text \<open>The loop \<^verbatim>\<open>for idx in sign_change_indices\<close>, appending one candidate per index.\<close>

fun candidates :: "real list \<Rightarrow> real list \<Rightarrow> nat list \<Rightarrow> py_error + real list" where
  "candidates t voltage [] = Inr []"
| "candidates t voltage (idx # rest) =
     (case candidate t voltage idx of Inl e \<Rightarrow> Inl e | Inr c \<Rightarrow>
     (case candidates t voltage rest of Inl e \<Rightarrow> Inl e | Inr cs \<Rightarrow> Inr (c # cs)))"

text \<open>
  \<open>np.argmin\<close>: the index of the first occurrence of the minimum; ValueError on an
  empty array. The scan keeps the best value and its index, and moves only on a strictly
  smaller value.
\<close>

fun argmin_scan :: "real \<Rightarrow> nat \<Rightarrow> nat \<Rightarrow> real list \<Rightarrow> nat" where
  "argmin_scan best bi i [] = bi"
| "argmin_scan best bi i (x # xs) =
     (if x < best then argmin_scan x i (Suc i) xs else argmin_scan best bi (Suc i) xs)"

fun argmin :: "real list \<Rightarrow> py_error + nat" where
  "argmin [] = Inl ValueError"
| "argmin (x # xs) = Inr (argmin_scan x 0 1 xs)"

text \<open>
  Lines 109 to 138: the value of \<open>actual_crossing\<close> after the refinement, for the time
  axis \<open>t\<close>, the samples \<open>voltage\<close> and the theoretical crossing \<open>cross\<close>.
\<close>

definition actual_crossing :: "real list \<Rightarrow> real list \<Rightarrow> real \<Rightarrow> py_error + real" where
  "actual_crossing t voltage cross =
     (let sci = sign_change_indices voltage in
      if length sci > 0 then
        (case candidates t voltage sci of Inl e \<Rightarrow> Inl e | Inr cs \<Rightarrow>
        (case argmin (map (\<lambda>c. abs (c - cross)) cs) of Inl e \<Rightarrow> Inl e | Inr idx_closest \<Rightarrow>
           getitem cs idx_closest))
      else Inr cross)"


section \<open>The interpolation in float64 arithmetic\<close>

text \<open>
  A float64 is an IEEE 754 binary64 value. An arithmetic operation on two of them returns
  the exact result rounded to the nearest representable value, ties going to the even
  significand. The representable values around \<open>x\<close> are the multiples of
  \<open>2 ^ (e - 52)\<close>, where \<open>e\<close> is the binary exponent of \<open>x\<close>, and never less than \<open>-1022\<close>
  (below \<open>2 ^ -1022\<close> the values are subnormal, spaced by \<open>2 ^ -1074\<close>). There is no
  largest exponent here: the rounding is that of float64 as long as the exact result stays
  below \<open>2 ^ 1024\<close> in magnitude.
\<close>

text \<open>Rounding to the nearest integer, ties to even.\<close>

definition round_half_even :: "real \<Rightarrow> int" where
  "round_half_even y =
     (let f = \<lfloor>y\<rfloor>; r = y - of_int f
      in if r < 1 / 2 then f else if r > 1 / 2 then f + 1 else if even f then f else f + 1)"

text \<open>
  The binary exponent of a magnitude: \<open>exponent_up\<close> halves a value of at least \<open>1\<close> until
  it is below \<open>2\<close>; \<open>exponent_down\<close> doubles a value below \<open>1\<close> until it reaches \<open>1\<close>, at most
  \<open>1022\<close> times, which is where the subnormal range begins.
\<close>

function exponent_up :: "real \<Rightarrow> int" where
  "exponent_up a = (if a < 2 then 0 else 1 + exponent_up (a / 2))"
  by pat_completeness auto
termination
proof (relation "measure (\<lambda>a. nat \<lfloor>a\<rfloor>)")
  show "wf (measure (\<lambda>a. nat \<lfloor>a :: real\<rfloor>))" by simp
next
  fix a :: real
  assume "\<not> a < 2"
  then have "a / 2 \<le> a - 1" by simp
  then have "\<lfloor>a / 2\<rfloor> \<le> \<lfloor>a - 1\<rfloor>" by (rule floor_mono)
  moreover have "\<lfloor>a - 1\<rfloor> = \<lfloor>a\<rfloor> - 1" by simp
  moreover have "1 \<le> \<lfloor>a\<rfloor>" using \<open>\<not> a < 2\<close> by (simp add: le_floor_iff)
  ultimately show "(a / 2, a) \<in> measure (\<lambda>a. nat \<lfloor>a\<rfloor>)" by simp
qed

fun exponent_down :: "nat \<Rightarrow> real \<Rightarrow> int" where
  "exponent_down 0 a = 0"
| "exponent_down (Suc n) a = (if a \<ge> 1 then 0 else exponent_down n (2 * a) - 1)"

definition binade :: "real \<Rightarrow> int" where
  "binade a = (if a \<ge> 1 then exponent_up a else exponent_down 1022 a)"

text \<open>The rounding of an exact result to float64.\<close>

definition round_f64 :: "real \<Rightarrow> real" where
  "round_f64 x =
     (let ulp = 2 powi (binade \<bar>x\<bar> - 52)
      in ulp * of_int (round_half_even (x / ulp)))"

declare exponent_up.simps [simp del]

text \<open>
  A sample that is a float64 value, of a magnitude that keeps every intermediate result of
  the interpolation away from overflow.
\<close>

definition f64_sample :: "real \<Rightarrow> bool" where
  "f64_sample x = (round_f64 x = x \<and> \<bar>x\<bar> \<le> 2 ^ 500)"

text \<open>
  Line 129 as float64 computes it, \<^verbatim>\<open>t1 - v1 * (t2 - t1) / (v2 - v1)\<close> with each of the five
  operations rounded, and the loop body, the loop and lines 109 to 138 around it.
\<close>

definition t_zero_f64 :: "real \<Rightarrow> real \<Rightarrow> real \<Rightarrow> real \<Rightarrow> real" where
  "t_zero_f64 t1 v1 t2 v2 =
     round_f64 (t1 - round_f64 (round_f64 (v1 * round_f64 (t2 - t1)) / round_f64 (v2 - v1)))"

definition candidate_f64 :: "real list \<Rightarrow> real list \<Rightarrow> nat \<Rightarrow> py_error + real" where
  "candidate_f64 t voltage idx =
     (case getitem voltage idx of Inl e \<Rightarrow> Inl e | Inr v1 \<Rightarrow>
     (case getitem voltage (idx + 1) of Inl e \<Rightarrow> Inl e | Inr v2 \<Rightarrow>
     (case getitem t idx of Inl e \<Rightarrow> Inl e | Inr t1 \<Rightarrow>
     (case getitem t (idx + 1) of Inl e \<Rightarrow> Inl e | Inr t2 \<Rightarrow>
        Inr (if v2 \<noteq> v1 then t_zero_f64 t1 v1 t2 v2 else t1)))))"

fun candidates_f64 :: "real list \<Rightarrow> real list \<Rightarrow> nat list \<Rightarrow> py_error + real list" where
  "candidates_f64 t voltage [] = Inr []"
| "candidates_f64 t voltage (idx # rest) =
     (case candidate_f64 t voltage idx of Inl e \<Rightarrow> Inl e | Inr c \<Rightarrow>
     (case candidates_f64 t voltage rest of Inl e \<Rightarrow> Inl e | Inr cs \<Rightarrow> Inr (c # cs)))"

definition actual_crossing_f64 :: "real list \<Rightarrow> real list \<Rightarrow> real \<Rightarrow> py_error + real" where
  "actual_crossing_f64 t voltage cross =
     (let sci = sign_change_indices voltage in
      if length sci > 0 then
        (case candidates_f64 t voltage sci of Inl e \<Rightarrow> Inl e | Inr cs \<Rightarrow>
        (case argmin (map (\<lambda>c. abs (round_f64 (c - cross))) cs) of Inl e \<Rightarrow> Inl e | Inr idx_closest \<Rightarrow>
           getitem cs idx_closest))
      else Inr cross)"

section \<open>Peak detector (OLD\_data/graf\_peakdetect/peak\_detect\_chart.py)\<close>

text \<open>
  \<^verbatim>\<open>peak_detector = np.maximum.accumulate(voltage)\<close>: the first output is the first
  input, and every later output is the maximum of the previous output and the current
  input. The empty array gives the empty array.
\<close>

fun maximum_accumulate_from :: "real \<Rightarrow> real list \<Rightarrow> real list" where
  "maximum_accumulate_from acc [] = []"
| "maximum_accumulate_from acc (x # xs) = max acc x # maximum_accumulate_from (max acc x) xs"

fun maximum_accumulate :: "real list \<Rightarrow> real list" where
  "maximum_accumulate [] = []"
| "maximum_accumulate (x # xs) = x # maximum_accumulate_from x xs"

definition peak_detector :: "real list \<Rightarrow> real list" where
  "peak_detector voltage = maximum_accumulate voltage"

section \<open>XOR of two square waves (OLD\_data/graf\_zerocross/makec.py)\<close>

text \<open>\<^verbatim>\<open>sq > 1.65\<close>, elementwise.\<close>

definition above_threshold :: "real list \<Rightarrow> bool list" where
  "above_threshold sq = map (\<lambda>v. v > 1.65) sq"

text \<open>
  \<open>np.logical_xor\<close> on one-dimensional arrays: elementwise on equal lengths, an array
  of length one is broadcast against the other, and any other pair of lengths raises
  ValueError.
\<close>

definition logical_xor :: "bool list \<Rightarrow> bool list \<Rightarrow> py_error + bool list" where
  "logical_xor a b =
     (if length a = length b then Inr (map2 (\<lambda>x y. x \<noteq> y) a b)
      else if length a = 1 then Inr (map (\<lambda>y. hd a \<noteq> y) b)
      else if length b = 1 then Inr (map (\<lambda>x. x \<noteq> hd b) a)
      else Inl ValueError)"

text \<open>
  \<^verbatim>\<open>xor_bool = np.logical_xor(sq1 > 1.65, sq2 > 1.65)\<close> and
  \<^verbatim>\<open>xor_sig = np.where(xor_bool, 3.3, 0)\<close>.
\<close>

definition xor_sig :: "real list \<Rightarrow> real list \<Rightarrow> py_error + real list" where
  "xor_sig sq1 sq2 =
     (case logical_xor (above_threshold sq1) (above_threshold sq2) of
        Inl e \<Rightarrow> Inl e
      | Inr xor_bool \<Rightarrow> Inr (map (\<lambda>b. if b then 3.3 else 0) xor_bool))"

section \<open>Font resolution\<close>

text \<open>
  A path is a string with \<open>/\<close> as separator. \<open>str.lower\<close> is modelled on the ASCII
  letters; \<open>a in b\<close> on strings is the contiguous-substring test.
\<close>

type_synonym path = string

definition lower_char :: "char \<Rightarrow> char" where
  "lower_char c =
     (let n = (of_char c :: nat) in if 65 \<le> n \<and> n \<le> 90 then char_of (n + 32) else c)"

definition lower :: "string \<Rightarrow> string" where
  "lower s = map lower_char s"

definition contains :: "string \<Rightarrow> string \<Rightarrow> bool" where
  "contains sub s = sublist sub s"

text \<open>\<open>Path.name\<close> and \<open>os.path.basename\<close>: what follows the last separator.\<close>

definition basename :: "path \<Rightarrow> string" where
  "basename p = rev (takeWhile (\<lambda>c. c \<noteq> CHR ''/'') (rev p))"

text \<open>\<open>s.replace(c, "")\<close> for a single character \<open>c\<close>.\<close>

definition remove_char :: "char \<Rightarrow> string \<Rightarrow> string" where
  "remove_char c s = filter (\<lambda>d. d \<noteq> c) s"

text \<open>
  The state the font section works on: the \<open>font.family\<close> entry of \<open>plt.rcParams\<close>
  and the lines printed to standard output. A block either completes or raises, in a
  state.
\<close>

record script_state =
  font_family :: string
  stdout :: "string list"

definition print :: "string \<Rightarrow> script_state \<Rightarrow> script_state" where
  "print line st = st\<lparr>stdout := stdout st @ [line]\<rparr>"

datatype py_exn = Exception string

datatype outcome = Completed script_state | Raised py_exn script_state

text \<open>
  The calls into \<open>matplotlib.font_manager\<close> are parameters: the names of the fonts in
  the manager's list, the result of \<open>findSystemFonts\<close>, and \<open>addfont\<close> and
  \<open>FontProperties(fname=p).get_name()\<close>, each of which may raise an exception (an
  instance of \<open>Exception\<close>, with its message).
\<close>

record font_manager =
  ttflist :: "string list"
  findSystemFonts :: "py_exn + path list"
  addfont :: "path \<Rightarrow> py_exn + unit"
  get_name :: "path \<Rightarrow> py_exn + string"

subsection \<open>Search by directory (makec.py, and the two makechart.py scripts)\<close>

definition name_matches :: "string \<Rightarrow> path \<Rightarrow> bool" where
  "name_matches target_font_str file_path =
     contains (lower target_font_str) (lower (basename file_path))"

definition not_bold_italic :: "path \<Rightarrow> bool" where
  "not_bold_italic file_path =
     (\<not> contains ''bold'' (lower (basename file_path)) \<and>
      \<not> contains ''italic'' (lower (basename file_path)))"

text \<open>
  The inner loop over \<^verbatim>\<open>directory.rglob("*.[ot]tf")\<close>, whose result (the font files
  below the directory, in the order of the traversal) is the list: it stops at the
  first file that passes both tests.
\<close>

fun search_directory :: "string \<Rightarrow> path list \<Rightarrow> path option" where
  "search_directory target_font_str [] = None"
| "search_directory target_font_str (file_path # rest) =
     (if name_matches target_font_str file_path then
        (if not_bold_italic file_path then Some file_path
         else search_directory target_font_str rest)
      else search_directory target_font_str rest)"

text \<open>
  The outer loop over \<open>search_dirs\<close>: a directory that does not exist (\<open>None\<close>) is
  skipped, and the loop stops at the first directory that gave a file.
\<close>

fun found_file :: "string \<Rightarrow> path list option list \<Rightarrow> path option" where
  "found_file target_font_str [] = None"
| "found_file target_font_str (None # search_dirs) = found_file target_font_str search_dirs"
| "found_file target_font_str (Some files # search_dirs) =
     (case search_directory target_font_str files of
        Some file_path \<Rightarrow> Some file_path
      | None \<Rightarrow> found_file target_font_str search_dirs)"

text \<open>
  The files that the two loops go through, in their order: the listings of the existing
  directories, one after the other.
\<close>

definition searched_files :: "path list option list \<Rightarrow> path list" where
  "searched_files search_dirs =
     concat (map (\<lambda>directory. case directory of None \<Rightarrow> [] | Some files \<Rightarrow> files) search_dirs)"

text \<open>The body of the \<open>try\<close> block that loads the file found.\<close>

definition load_font :: "font_manager \<Rightarrow> path \<Rightarrow> script_state \<Rightarrow> outcome" where
  "load_font fm file st =
     (case addfont fm file of
        Inl e \<Rightarrow> Raised e st
      | Inr u \<Rightarrow>
         (case get_name fm file of
            Inl e \<Rightarrow> Raised e st
          | Inr internal_name \<Rightarrow>
              Completed (print (''SUCCESS: Loaded '' @ [CHR 0x27] @ internal_name @ [CHR 0x27]
                                  @ '' from '' @ file)
                           (st\<lparr>font_family := internal_name\<rparr>))))"

text \<open>
  The font section of the script, lines 20 to 58 of makec.py: the search, the guarded
  load, which sets \<open>font_loaded\<close> only when it completes, and the fallback.
\<close>

definition font_section :: "font_manager \<Rightarrow> string \<Rightarrow> path list option list \<Rightarrow> script_state \<Rightarrow> outcome" where
  "font_section fm target_font_str search_dirs st0 =
     (let st1 = print (''Searching for font files matching '' @ [CHR 0x27] @ target_font_str
                         @ [CHR 0x27] @ ''...'') st0;
          (font_loaded, st2) =
            (case found_file target_font_str search_dirs of
               None \<Rightarrow> (False, st1)
             | Some file \<Rightarrow>
                (case load_font fm file st1 of
                   Completed st \<Rightarrow> (True, st)
                 | Raised (Exception e) st \<Rightarrow> (False, print (''Error loading font file: '' @ e) st)))
      in if \<not> font_loaded then
           Completed ((print (''WARNING: Could not find a file matching '' @ [CHR 0x27]
                               @ target_font_str @ [CHR 0x27] @ ''. Using Monospace fallback.'') st2)
                        \<lparr>font_family := ''monospace''\<rparr>)
         else Completed st2)"

subsection \<open>Search of the system fonts (peak\_detect\_chart.py)\<close>

text \<open>The truth value of \<open>found_path\<close>, which is \<open>None\<close> or a string.\<close>

fun truthy :: "path option \<Rightarrow> bool" where
  "truthy None = False"
| "truthy (Some p) = (p \<noteq> [])"

definition target_clean :: "string \<Rightarrow> string" where
  "target_clean font_name = remove_char CHR '' '' (lower font_name)"

definition is_candidate :: "string \<Rightarrow> path \<Rightarrow> bool" where
  "is_candidate font_name path =
     contains (target_clean font_name)
       (remove_char CHR ''_'' (remove_char CHR ''-'' (lower (basename path))))"

definition font_candidates :: "string \<Rightarrow> path list \<Rightarrow> path list" where
  "font_candidates font_name system_fonts = filter (is_candidate font_name) system_fonts"

definition clean_name :: "path \<Rightarrow> bool" where
  "clean_name path =
     (let fname = lower (basename path)
      in \<not> contains ''italic'' fname \<and> \<not> contains ''bold'' fname \<and> \<not> contains ''oblique'' fname)"

text \<open>The first pass: the first candidate with a clean name, the loop ending there.\<close>

fun first_pass :: "path list \<Rightarrow> path option" where
  "first_pass [] = None"
| "first_pass (path # rest) = (if clean_name path then Some path else first_pass rest)"

definition found_path :: "string \<Rightarrow> path list \<Rightarrow> path option" where
  "found_path font_name system_fonts =
     (let candidates = font_candidates font_name system_fonts in
      if candidates \<noteq> [] then
        (let found = first_pass candidates
         in if \<not> truthy found then Some (hd candidates) else found)
      else None)"

text \<open>The body of the \<open>try\<close> block, lines 10 to 53.\<close>

definition font_try_block :: "font_manager \<Rightarrow> string \<Rightarrow> script_state \<Rightarrow> outcome" where
  "font_try_block fm font_name st0 =
     (if lower font_name \<in> set (map lower (ttflist fm)) then
        Completed (print (''Using cached font: '' @ font_name) (st0\<lparr>font_family := font_name\<rparr>))
      else
        (let st1 = print (''Font '' @ [CHR 0x27] @ font_name @ [CHR 0x27]
                            @ '' not in cache, searching system files...'') st0
         in case findSystemFonts fm of
              Inl e \<Rightarrow> Raised e st1
            | Inr system_fonts \<Rightarrow>
               (let found = found_path font_name system_fonts in
                if truthy found then
                  (case addfont fm (the found) of
                     Inl e \<Rightarrow> Raised e st1
                   | Inr u \<Rightarrow>
                      (case get_name fm (the found) of
                         Inl e \<Rightarrow> Raised e st1
                       | Inr internal_name \<Rightarrow>
                           Completed (print (''Found and loaded font from: '' @ the found)
                                        (st1\<lparr>font_family := internal_name\<rparr>))))
                else
                  Completed ((print (''Warning: Font '' @ [CHR 0x27] @ font_name @ [CHR 0x27]
                                       @ '' could not be found. Using default.'') st1)
                               \<lparr>font_family := ''sans-serif''\<rparr>))))"

text \<open>The \<open>try\<close> block with its handler \<^verbatim>\<open>except Exception as e\<close>.\<close>

definition font_handling :: "font_manager \<Rightarrow> string \<Rightarrow> script_state \<Rightarrow> outcome" where
  "font_handling fm font_name st0 =
     (case font_try_block fm font_name st0 of
        Completed st \<Rightarrow> Completed st
      | Raised (Exception e) st \<Rightarrow>
          Completed ((print (''Font warning: '' @ e @ ''. Falling back to default.'') st)
                       \<lparr>font_family := ''sans-serif''\<rparr>))"

section \<open>Properties of the zero-crossing refinement\<close>

subsection \<open>Auxiliary facts\<close>

lemma sign_change_indices_iff: "i \<in> set (sign_change_indices voltage) \<longleftrightarrow>
   (i + 1 < length voltage \<and> voltage ! i < 0 \<and> voltage ! (i + 1) \<ge> 0)"
  by (auto simp: sign_change_indices_def np_where_def sign_change_mask_def nth_butlast nth_tl)

lemma candidate_in_range:
  assumes "idx + 1 < length voltage" and "idx + 1 < length t"
  shows "candidate t voltage idx =
    Inr (if voltage ! (idx + 1) \<noteq> voltage ! idx
         then t_zero (t ! idx) (voltage ! idx) (t ! (idx + 1)) (voltage ! (idx + 1))
         else t ! idx)"
  using assms by (simp add: candidate_def getitem_def)

lemma candidate_sign_change:
  assumes "idx \<in> set (sign_change_indices voltage)" and "length voltage \<le> length t"
  shows "candidate t voltage idx =
    Inr (t_zero (t ! idx) (voltage ! idx) (t ! (idx + 1)) (voltage ! (idx + 1)))"
proof -
  from assms(1) have r: "idx + 1 < length voltage" and s: "voltage ! idx < 0" "voltage ! (idx + 1) \<ge> 0"
    by (simp_all add: sign_change_indices_iff)
  from s have "voltage ! (idx + 1) \<noteq> voltage ! idx" by linarith
  with r assms(2) show ?thesis by (simp add: candidate_in_range)
qed

lemma candidates_map:
  assumes "\<forall>idx \<in> set is. candidate t voltage idx = Inr (f idx)"
  shows "candidates t voltage is = Inr (map f is)"
  using assms by (induction "is") simp_all

lemma candidates_sign_change:
  assumes "length voltage \<le> length t"
  shows "candidates t voltage (sign_change_indices voltage) =
    Inr (map (\<lambda>idx. t_zero (t ! idx) (voltage ! idx) (t ! (idx + 1)) (voltage ! (idx + 1)))
           (sign_change_indices voltage))"
  by (rule candidates_map) (simp add: candidate_sign_change assms)

lemma argmin_scan_spec:
  "(argmin_scan best bi i xs = bi \<and> (\<forall>x \<in> set xs. best \<le> x)) \<or>
   (\<exists>j < length xs. argmin_scan best bi i xs = i + j \<and> xs ! j < best \<and>
       (\<forall>l < length xs. xs ! j \<le> xs ! l) \<and> (\<forall>l < j. xs ! j < xs ! l))"
proof (induction xs arbitrary: best bi i)
  case Nil
  show ?case by simp
next
  case (Cons x xs)
  show ?case
  proof (cases "x < best")
    case True
    from Cons.IH [of x i "Suc i"] show ?thesis
    proof
      assume a: "argmin_scan x i (Suc i) xs = i \<and> (\<forall>y \<in> set xs. x \<le> y)"
      have "\<forall>l < length (x # xs). (x # xs) ! 0 \<le> (x # xs) ! l"
        using a by (auto simp: nth_Cons split: nat.splits)
      with a True show ?thesis by (intro disjI2 exI [of _ 0]) simp
    next
      assume "\<exists>j < length xs. argmin_scan x i (Suc i) xs = Suc i + j \<and> xs ! j < x \<and>
         (\<forall>l < length xs. xs ! j \<le> xs ! l) \<and> (\<forall>l < j. xs ! j < xs ! l)"
      then obtain j where j: "j < length xs" "argmin_scan x i (Suc i) xs = Suc i + j" "xs ! j < x"
        "\<forall>l < length xs. xs ! j \<le> xs ! l" "\<forall>l < j. xs ! j < xs ! l" by blast
      have "\<forall>l < length (x # xs). (x # xs) ! Suc j \<le> (x # xs) ! l"
        using j by (auto simp: nth_Cons split: nat.splits)
      moreover have "\<forall>l < Suc j. (x # xs) ! Suc j < (x # xs) ! l"
        using j by (auto simp: nth_Cons split: nat.splits)
      ultimately show ?thesis using j True
        by (intro disjI2 exI [of _ "Suc j"]) simp
    qed
  next
    case False
    from Cons.IH [of best bi "Suc i"] show ?thesis
    proof
      assume "argmin_scan best bi (Suc i) xs = bi \<and> (\<forall>y \<in> set xs. best \<le> y)"
      with False show ?thesis by (intro disjI1) simp
    next
      assume "\<exists>j < length xs. argmin_scan best bi (Suc i) xs = Suc i + j \<and> xs ! j < best \<and>
         (\<forall>l < length xs. xs ! j \<le> xs ! l) \<and> (\<forall>l < j. xs ! j < xs ! l)"
      then obtain j where j: "j < length xs" "argmin_scan best bi (Suc i) xs = Suc i + j"
        "xs ! j < best"
        "\<forall>l < length xs. xs ! j \<le> xs ! l" "\<forall>l < j. xs ! j < xs ! l" by blast
      have "\<forall>l < length (x # xs). (x # xs) ! Suc j \<le> (x # xs) ! l"
        using j False by (auto simp: nth_Cons split: nat.splits)
      moreover have "\<forall>l < Suc j. (x # xs) ! Suc j < (x # xs) ! l"
        using j False by (auto simp: nth_Cons split: nat.splits)
      ultimately show ?thesis using j False
        by (intro disjI2 exI [of _ "Suc j"]) simp
    qed
  qed
qed

lemma argmin_spec:
  assumes "ys \<noteq> []"
  shows "\<exists>k < length ys. argmin ys = Inr k \<and> (\<forall>l < length ys. ys ! k \<le> ys ! l) \<and>
           (\<forall>l < k. ys ! k < ys ! l)"
proof -
  from assms obtain x xs where ys: "ys = x # xs" by (cases ys) auto
  from argmin_scan_spec [of x 0 1 xs] show ?thesis
  proof
    assume a: "argmin_scan x 0 1 xs = 0 \<and> (\<forall>y \<in> set xs. x \<le> y)"
    have "\<forall>l < length (x # xs). (x # xs) ! 0 \<le> (x # xs) ! l"
      using a by (auto simp: nth_Cons split: nat.splits)
    with a show ?thesis unfolding ys by (intro exI [of _ 0]) simp
  next
    assume "\<exists>j < length xs. argmin_scan x 0 1 xs = 1 + j \<and> xs ! j < x \<and>
       (\<forall>l < length xs. xs ! j \<le> xs ! l) \<and> (\<forall>l < j. xs ! j < xs ! l)"
    then obtain j where j: "j < length xs" "argmin_scan x 0 1 xs = 1 + j" "xs ! j < x"
      "\<forall>l < length xs. xs ! j \<le> xs ! l" "\<forall>l < j. xs ! j < xs ! l" by blast
    have "\<forall>l < length (x # xs). (x # xs) ! Suc j \<le> (x # xs) ! l"
      using j by (auto simp: nth_Cons split: nat.splits)
    moreover have "\<forall>l < Suc j. (x # xs) ! Suc j < (x # xs) ! l"
      using j by (auto simp: nth_Cons split: nat.splits)
    ultimately show ?thesis using j unfolding ys
      by (intro exI [of _ "Suc j"]) simp
  qed
qed

lemma sign_change_indices_empty:
  "sign_change_indices voltage = [] \<longleftrightarrow>
     (\<forall>i. i + 1 < length voltage \<longrightarrow> \<not> (voltage ! i < 0 \<and> voltage ! (i + 1) \<ge> 0))"
proof -
  have "sign_change_indices voltage = [] \<longleftrightarrow> (\<forall>i. i \<notin> set (sign_change_indices voltage))"
    by (cases "sign_change_indices voltage") auto
  then show ?thesis unfolding sign_change_indices_iff by blast
qed


lemma t_zero_bracket:
  assumes "v1 < 0" and "v2 \<ge> 0" and "t1 < t2"
  shows "t1 < t_zero t1 v1 t2 v2 \<and> t_zero t1 v1 t2 v2 \<le> t2"
proof -
  have dv: "v2 - v1 > 0" using assms by linarith
  have dt: "t2 - t1 > 0" using assms by linarith
  have "v1 * (t2 - t1) < 0" using assms(1) dt by (simp add: mult_neg_pos)
  then have "v1 * (t2 - t1) / (v2 - v1) < 0" using dv by (simp add: divide_neg_pos)
  then have lo: "t1 < t_zero t1 v1 t2 v2" by (simp add: t_zero_def)
  have "- v1 \<le> v2 - v1" using assms(2) by simp
  then have "(- v1) * (t2 - t1) \<le> (v2 - v1) * (t2 - t1)"
    using dt by (intro mult_right_mono) simp_all
  then have "(- v1) * (t2 - t1) \<le> (t2 - t1) * (v2 - v1)"
    by (simp only: mult.commute)
  then have "(- v1) * (t2 - t1) / (v2 - v1) \<le> t2 - t1"
    unfolding pos_divide_le_eq [OF dv] .
  then have hi: "t_zero t1 v1 t2 v2 \<le> t2" by (simp add: t_zero_def)
  from lo hi show ?thesis ..
qed

lemma strictly_increasing_window:
  assumes "sorted_wrt (<) (t :: real list)" and "i < length t"
  shows "hd t \<le> t ! i \<and> t ! i \<le> last t"
proof -
  from assms(2) have ne: "t \<noteq> []" by auto
  have "t ! 0 \<le> t ! i"
  proof (cases "i = 0")
    case False
    then have "0 < i" by simp
    from sorted_wrt_nth_less [OF assms(1) this assms(2)] show ?thesis by simp
  qed simp
  moreover have "t ! i \<le> t ! (length t - 1)"
  proof (cases "i = length t - 1")
    case False
    with assms(2) have "i < length t - 1" and "length t - 1 < length t" by simp_all
    from sorted_wrt_nth_less [OF assms(1) this] show ?thesis by simp
  qed simp
  ultimately show ?thesis using ne by (simp add: hd_conv_nth last_conv_nth)
qed

lemma actual_crossing_selects:
  assumes "length voltage \<le> length t" and "sign_change_indices voltage \<noteq> []"
  shows "\<exists>cs k. candidates t voltage (sign_change_indices voltage) = Inr cs \<and>
           cs = map (\<lambda>idx. t_zero (t ! idx) (voltage ! idx) (t ! (idx + 1)) (voltage ! (idx + 1)))
                  (sign_change_indices voltage) \<and>
           k < length cs \<and> actual_crossing t voltage cross = Inr (cs ! k) \<and>
           (\<forall>l < length cs. \<bar>cs ! k - cross\<bar> \<le> \<bar>cs ! l - cross\<bar>) \<and>
           (\<forall>l < k. \<bar>cs ! k - cross\<bar> < \<bar>cs ! l - cross\<bar>)"
proof -
  define cs where "cs = map (\<lambda>idx. t_zero (t ! idx) (voltage ! idx) (t ! (idx + 1)) (voltage ! (idx + 1)))
                  (sign_change_indices voltage)"
  define ds where "ds = map (\<lambda>c. abs (c - cross)) cs"
  have c: "candidates t voltage (sign_change_indices voltage) = Inr cs"
    unfolding cs_def by (rule candidates_sign_change [OF assms(1)])
  have "ds \<noteq> []" using assms(2) by (simp add: ds_def cs_def)
  from argmin_spec [OF this] obtain k where k: "k < length ds" "argmin ds = Inr k"
    "\<forall>l < length ds. ds ! k \<le> ds ! l" "\<forall>l < k. ds ! k < ds ! l" by blast
  have len: "length ds = length cs" by (simp add: ds_def)
  have nth: "ds ! l = \<bar>cs ! l - cross\<bar>" if "l < length cs" for l
    using that by (simp add: ds_def)
  have a: "actual_crossing t voltage cross = Inr (cs ! k)"
    using assms(2) c k(1,2) len by (simp add: actual_crossing_def ds_def [symmetric] getitem_def)
  have m1: "\<forall>l < length cs. \<bar>cs ! k - cross\<bar> \<le> \<bar>cs ! l - cross\<bar>"
    using k(1,3) len nth by metis
  have m2: "\<forall>l < k. \<bar>cs ! k - cross\<bar> < \<bar>cs ! l - cross\<bar>"
  proof (intro allI impI)
    fix l assume "l < k"
    with k(1,4) len have "ds ! k < ds ! l" and "l < length cs" and "k < length cs" by simp_all
    then show "\<bar>cs ! k - cross\<bar> < \<bar>cs ! l - cross\<bar>" by (simp add: nth)
  qed
  from c a m1 m2 k(1) len show ?thesis
    unfolding cs_def [symmetric] by (intro exI [of _ cs] exI [of _ k]) simp
qed

subsection \<open>The claims\<close>

text \<open>
  Claim C8. The detector flags the index \<open>i\<close> exactly when the signal goes from a negative
  sample to a non-negative one between \<open>i\<close> and \<open>i + 1\<close>: \<open>voltage[i] < 0\<close> and
  \<open>voltage[i+1] >= 0\<close>, both samples being in the array. No other pair is flagged.
\<close>

theorem zero_crossing_flagged_iff:
  "i \<in> set (sign_change_indices voltage) \<longleftrightarrow>
     (i + 1 < length voltage \<and> voltage ! i < 0 \<and> voltage ! (i + 1) \<ge> 0)"
  by (rule sign_change_indices_iff)

text \<open>
  Claim C9. At every detected sign-change index the two samples differ, with
  \<open>voltage[idx+1] - voltage[idx] > 0\<close>: the divisor of the interpolation formula is not
  zero, and the loop body takes the branch of the formula, never the branch that appends
  \<open>t[idx]\<close>.
\<close>

theorem sign_change_values_distinct:
  assumes "idx \<in> set (sign_change_indices voltage)"
  shows "voltage ! (idx + 1) \<noteq> voltage ! idx \<and> voltage ! (idx + 1) - voltage ! idx > 0 \<and>
         (length voltage \<le> length t \<longrightarrow>
            candidate t voltage idx =
              Inr (t_zero (t ! idx) (voltage ! idx) (t ! (idx + 1)) (voltage ! (idx + 1))))"
proof -
  from assms have "voltage ! idx < 0" and "voltage ! (idx + 1) \<ge> 0"
    by (simp_all add: sign_change_indices_iff)
  then have "voltage ! (idx + 1) - voltage ! idx > 0" by linarith
  moreover from this have "voltage ! (idx + 1) \<noteq> voltage ! idx" by linarith
  ultimately show ?thesis using assms by (simp add: candidate_sign_change)
qed

theorem sign_change_values_distinct_witness:
  "0 \<in> set (sign_change_indices [-1, 3]) \<and> candidate [0, 1] [-1, 3] 0 = Inr (1 / 4)"
proof -
  have h: "0 \<in> set (sign_change_indices [-1, 3])"
    by (simp add: sign_change_indices_def np_where_def sign_change_mask_def)
  from sign_change_values_distinct [OF h, of "[0, 1]"] h show ?thesis
    by (simp add: t_zero_def)
qed



text \<open>
  Claim C3. When no adjacent pair has \<open>voltage[i] < 0\<close> and \<open>voltage[i+1] >= 0\<close>, the
  refinement returns the theoretical crossing unchanged and raises nothing, whatever the
  time axis.
\<close>

theorem no_sign_change_fallback:
  assumes "\<forall>i. i + 1 < length voltage \<longrightarrow> \<not> (voltage ! i < 0 \<and> voltage ! (i + 1) \<ge> 0)"
  shows "actual_crossing t voltage cross = Inr cross"
proof -
  from assms have "sign_change_indices voltage = []"
    by (simp only: sign_change_indices_empty)
  then show ?thesis by (simp add: actual_crossing_def)
qed

theorem no_sign_change_fallback_witness:
  "actual_crossing [0, 1, 2] [1, -1, -2] 5 = Inr 5"
proof -
  have "i + 1 < length [1, -1, -2 :: real] \<longrightarrow>
      \<not> ([1, -1, -2 :: real] ! i < 0 \<and> [1, -1, -2 :: real] ! (i + 1) \<ge> 0)" for i
    by (cases i) (simp_all add: nth_Cons split: nat.splits)
  then have "\<forall>i. i + 1 < length [1, -1, -2 :: real] \<longrightarrow>
      \<not> ([1, -1, -2 :: real] ! i < 0 \<and> [1, -1, -2 :: real] ! (i + 1) \<ge> 0)"
    by blast
  from no_sign_change_fallback [OF this] show ?thesis .
qed

text \<open>
  Claim C2. With at least one detected sign change (and a time axis covering the samples),
  the reported crossing is one of the interpolated candidates, its absolute distance to
  the theoretical crossing is minimal among all candidates, and every candidate before it
  is strictly farther: the first minimiser is chosen.
\<close>

theorem actual_crossing_closest:
  assumes "length voltage \<le> length t" and "sign_change_indices voltage \<noteq> []"
  shows "\<exists>cs k. candidates t voltage (sign_change_indices voltage) = Inr cs \<and>
           cs = map (\<lambda>idx. t_zero (t ! idx) (voltage ! idx) (t ! (idx + 1)) (voltage ! (idx + 1)))
                  (sign_change_indices voltage) \<and>
           k < length cs \<and> actual_crossing t voltage cross = Inr (cs ! k) \<and>
           (\<forall>l < length cs. \<bar>cs ! k - cross\<bar> \<le> \<bar>cs ! l - cross\<bar>) \<and>
           (\<forall>l < k. \<bar>cs ! k - cross\<bar> < \<bar>cs ! l - cross\<bar>)"
  using assms by (rule actual_crossing_selects)

theorem actual_crossing_closest_witness:
  "length [-1, 1, -1, 3 :: real] \<le> length [0, 1, 2, 3 :: real] \<and>
   sign_change_indices [-1, 1, -1, 3] \<noteq> [] \<and>
   actual_crossing [0, 1, 2, 3] [-1, 1, -1, 3] (11 / 5) = Inr (9 / 4)"
proof -
  have s: "sign_change_indices [-1, 1, -1, 3] = [0, 2]"
    by (simp add: sign_change_indices_def np_where_def sign_change_mask_def upt_rec)
  have h1: "length [-1, 1, -1, 3 :: real] \<le> length [0, 1, 2, 3 :: real]" by simp
  have h2: "sign_change_indices [-1, 1, -1, 3] \<noteq> []" by (simp add: s)
  from actual_crossing_closest [OF h1 h2, of "11 / 5"]
  obtain cs k where cs: "cs = [1 / 2, 9 / 4 :: real]" and k: "k < length cs"
    and a: "actual_crossing [0, 1, 2, 3] [-1, 1, -1, 3] (11 / 5) = Inr (cs ! k)"
    and m: "\<forall>l < length cs. \<bar>cs ! k - 11 / 5\<bar> \<le> \<bar>cs ! l - 11 / 5\<bar>"
    unfolding s by (auto simp: t_zero_def)
  from k cs have "k = 0 \<or> k = 1" by auto
  moreover from m [rule_format, of 1] cs have "\<bar>cs ! k - 11 / 5\<bar> \<le> \<bar>cs ! 1 - 11 / 5\<bar>" by simp
  ultimately have "k = 1" using cs by auto
  with a cs h1 h2 show ?thesis by simp
qed

subsection \<open>The order of the computed crossing\<close>

text \<open>
  The exact value of the formula lies in the bracket of its two samples
  (\<open>t_zero_bracket\<close> above). The facts below are about the float64 value that the code
  computes: the rounding is monotone, which keeps the computed value from falling below
  \<open>t[idx]\<close>, and nothing more.
\<close>

lemma round_half_even_of_int: "round_half_even (of_int n) = n"
  by (simp add: round_half_even_def)

lemma round_half_even_bounds: "\<lfloor>y\<rfloor> \<le> round_half_even y \<and> round_half_even y \<le> \<lfloor>y\<rfloor> + 1"
  by (simp add: round_half_even_def Let_def)

lemma round_half_even_mono:
  assumes "y \<le> z"
  shows "round_half_even y \<le> round_half_even z"
proof (cases "\<lfloor>y\<rfloor> = \<lfloor>z\<rfloor>")
  case True
  with assms have "y - of_int \<lfloor>z\<rfloor> \<le> z - of_int \<lfloor>z\<rfloor>" by simp
  with True show ?thesis by (auto simp: round_half_even_def Let_def)
next
  case False
  moreover from assms have "\<lfloor>y\<rfloor> \<le> \<lfloor>z\<rfloor>" by (rule floor_mono)
  ultimately have "\<lfloor>y\<rfloor> + 1 \<le> \<lfloor>z\<rfloor>" by simp
  with round_half_even_bounds [of y] round_half_even_bounds [of z] show ?thesis by linarith
qed

lemma grid_le:
  assumes "0 < g" and "x \<le> g * of_int n"
  shows "g * of_int (round_half_even (x / g)) \<le> g * of_int n"
proof -
  from assms have "x / g \<le> of_int n" by (simp add: pos_divide_le_eq mult.commute)
  from round_half_even_mono [OF this] have "round_half_even (x / g) \<le> n"
    by (simp add: round_half_even_of_int)
  then have "(of_int (round_half_even (x / g)) :: real) \<le> of_int n" by simp
  with assms(1) show ?thesis by simp
qed

lemma grid_ge:
  assumes "0 < g" and "g * of_int n \<le> x"
  shows "g * of_int n \<le> g * of_int (round_half_even (x / g))"
proof -
  from assms have "of_int n \<le> x / g" by (simp add: pos_le_divide_eq mult.commute)
  from round_half_even_mono [OF this] have "n \<le> round_half_even (x / g)"
    by (simp add: round_half_even_of_int)
  then have "(of_int n :: real) \<le> of_int (round_half_even (x / g))" by simp
  with assms(1) show ?thesis by simp
qed

lemma two_powi_Suc: "(2::real) powi (e + 1) = 2 * 2 powi e"
  by (simp add: power_int_add)

lemma exponent_up_spec:
  "1 \<le> a \<Longrightarrow> 0 \<le> exponent_up a \<and> 2 powi exponent_up a \<le> a \<and> a < 2 powi (exponent_up a + 1)"
proof (induction a rule: exponent_up.induct)
  case (1 a)
  show ?case
  proof (cases "a < 2")
    case True
    with "1.prems" show ?thesis by (simp add: exponent_up.simps [of a])
  next
    case False
    then have "1 \<le> a / 2" by simp
    from "1.IH" [OF False this] have ih: "0 \<le> exponent_up (a / 2)"
      "2 powi exponent_up (a / 2) \<le> a / 2" "a / 2 < 2 powi (exponent_up (a / 2) + 1)"
      by simp_all
    define k where "k = exponent_up (a / 2)"
    have e: "exponent_up a = k + 1"
      using False by (simp add: exponent_up.simps [of a] k_def)
    have p1: "(2::real) powi (k + 1) = 2 * 2 powi k" by (rule two_powi_Suc)
    have p2: "(2::real) powi (k + 1 + 1) = 2 * 2 powi (k + 1)" by (rule two_powi_Suc)
    from ih have "0 \<le> k" "2 powi k \<le> a / 2" "a / 2 < 2 powi (k + 1)"
      by (simp_all only: k_def)
    then have "0 \<le> k + 1" "2 powi (k + 1) \<le> a" "a < 2 powi (k + 1 + 1)"
      unfolding p2 unfolding p1 by linarith+
    then show ?thesis unfolding e by blast
  qed
qed

lemma exponent_down_spec:
  "0 \<le> a \<Longrightarrow> a < 1 \<Longrightarrow>
     - int n \<le> exponent_down n a \<and> a < 2 powi (exponent_down n a + 1) \<and>
     (- int n < exponent_down n a \<longrightarrow> 2 powi exponent_down n a \<le> a)"
proof (induction n arbitrary: a)
  case 0
  then show ?case by simp
next
  case (Suc n)
  show ?case
  proof (cases "2 * a \<ge> 1")
    case True
    then have "exponent_down n (2 * a) = 0" by (cases n) simp_all
    with Suc.prems True show ?thesis by (simp add: power_int_minus)
  next
    case False
    with Suc.prems have "0 \<le> 2 * a" and "2 * a < 1" by simp_all
    from Suc.IH [OF this] have ih: "- int n \<le> exponent_down n (2 * a)"
      "2 * a < 2 powi (exponent_down n (2 * a) + 1)"
      "- int n < exponent_down n (2 * a) \<longrightarrow> 2 powi exponent_down n (2 * a) \<le> 2 * a"
      by simp_all
    have e: "exponent_down (Suc n) a = exponent_down n (2 * a) - 1"
      using Suc.prems by simp
    have p: "(2::real) powi exponent_down n (2 * a) = 2 * 2 powi (exponent_down n (2 * a) - 1)"
      using two_powi_Suc [of "exponent_down n (2 * a) - 1"] by simp
    from ih show ?thesis unfolding e by (auto simp: two_powi_Suc p)
  qed
qed

lemma binade_spec:
  assumes "0 \<le> a"
  shows "- 1022 \<le> binade a" and "a < 2 powi (binade a + 1)"
    and "- 1022 < binade a \<Longrightarrow> 2 powi binade a \<le> a"
proof -
  show "- 1022 \<le> binade a"
    using exponent_up_spec [of a] exponent_down_spec [OF assms, of 1022]
    by (cases "1 \<le> a") (simp_all add: binade_def)
  show "a < 2 powi (binade a + 1)"
    using exponent_up_spec [of a] exponent_down_spec [OF assms, of 1022]
    by (cases "1 \<le> a") (simp_all add: binade_def)
  show "2 powi binade a \<le> a" if "- 1022 < binade a"
    using that exponent_up_spec [of a] exponent_down_spec [OF assms, of 1022]
    by (cases "1 \<le> a") (simp_all add: binade_def)
qed

lemma binade_mono:
  assumes "0 \<le> a" and "a \<le> b"
  shows "binade a \<le> binade b"
proof (rule ccontr)
  assume "\<not> binade a \<le> binade b"
  then have lt: "binade b + 1 \<le> binade a" by simp
  from assms have b: "0 \<le> b" by simp
  from lt binade_spec(1) [OF b] have "- 1022 < binade a" by simp
  from binade_spec(3) [OF assms(1) this] have "2 powi binade a \<le> a" .
  moreover have "b < 2 powi (binade b + 1)" by (rule binade_spec(2) [OF b])
  moreover have "(2::real) powi (binade b + 1) \<le> 2 powi binade a"
    using lt by (intro power_int_increasing) simp_all
  ultimately show False using assms(2) by linarith
qed

lemma ulp_pos: "0 < (2::real) powi k"
  by simp

lemma round_f64_unfold:
  "round_f64 x = 2 powi (binade \<bar>x\<bar> - 52) * of_int (round_half_even (x / 2 powi (binade \<bar>x\<bar> - 52)))"
  by (simp add: round_f64_def Let_def)

lemma round_f64_same_binade:
  assumes "binade \<bar>x\<bar> = binade \<bar>y\<bar>" and "x \<le> y"
  shows "round_f64 x \<le> round_f64 y"
proof -
  let ?g = "(2::real) powi (binade \<bar>y\<bar> - 52)"
  have g: "0 < ?g" by simp
  from assms(2) g have "x / ?g \<le> y / ?g" by (simp add: divide_right_mono)
  then have "round_half_even (x / ?g) \<le> round_half_even (y / ?g)"
    by (rule round_half_even_mono)
  then have "(of_int (round_half_even (x / ?g)) :: real) \<le> of_int (round_half_even (y / ?g))"
    by simp
  with g have "?g * of_int (round_half_even (x / ?g)) \<le> ?g * of_int (round_half_even (y / ?g))"
    by simp
  then show ?thesis unfolding round_f64_unfold assms(1) .
qed

lemma binade_boundary:
  assumes "m \<ge> 0" and "j = k + m"
  shows "(2::real) powi j = 2 powi k * of_int (2 ^ nat m)"
proof -
  have "(2::real) powi (k + m) = 2 powi k * 2 powi m" by (simp add: power_int_add)
  also have "(2::real) powi m = 2 ^ nat m" using assms(1) by (simp add: power_int_def)
  finally show ?thesis unfolding assms(2) by simp
qed

text \<open>Two magnitudes in different binades are separated by the power of two between them.\<close>

lemma round_f64_le_boundary:
  assumes "binade \<bar>x\<bar> \<le> e"
  shows "round_f64 x \<le> 2 powi (e + 1)" and "- (2 powi (e + 1)) \<le> round_f64 x"
proof -
  let ?g = "(2::real) powi (binade \<bar>x\<bar> - 52)"
  define m where "m = e + 1 - binade \<bar>x\<bar> + 52"
  have m: "0 \<le> m" using assms by (simp add: m_def)
  have b: "(2::real) powi (e + 1) = ?g * of_int (2 ^ nat m)"
    by (rule binade_boundary [OF m]) (simp add: m_def)
  have "\<bar>x\<bar> < 2 powi (binade \<bar>x\<bar> + 1)" by (rule binade_spec(2)) simp
  also have "(2::real) powi (binade \<bar>x\<bar> + 1) \<le> 2 powi (e + 1)"
    using assms by (intro power_int_increasing) simp_all
  finally have lt: "\<bar>x\<bar> < 2 powi (e + 1)" .
  then have "x \<le> ?g * of_int (2 ^ nat m)" unfolding b by linarith
  from grid_le [OF ulp_pos this] show "round_f64 x \<le> 2 powi (e + 1)"
    unfolding b round_f64_unfold .
  have "?g * of_int (- (2 ^ nat m)) = - (?g * of_int (2 ^ nat m))" by simp
  with lt have "?g * of_int (- (2 ^ nat m)) \<le> x" unfolding b by linarith
  from grid_ge [OF ulp_pos this] have "?g * of_int (- (2 ^ nat m)) \<le> round_f64 x"
    unfolding round_f64_unfold .
  then show "- (2 powi (e + 1)) \<le> round_f64 x"
    unfolding b by simp
qed

lemma round_f64_ge_boundary:
  assumes "- 1022 < binade \<bar>x\<bar>"
  shows "0 \<le> x \<Longrightarrow> 2 powi binade \<bar>x\<bar> \<le> round_f64 x"
    and "x \<le> 0 \<Longrightarrow> round_f64 x \<le> - (2 powi binade \<bar>x\<bar>)"
proof -
  let ?g = "(2::real) powi (binade \<bar>x\<bar> - 52)"
  have b: "(2::real) powi binade \<bar>x\<bar> = ?g * of_int (2 ^ nat 52)"
    by (rule binade_boundary) simp_all
  have le: "2 powi binade \<bar>x\<bar> \<le> \<bar>x\<bar>" by (rule binade_spec(3) [OF _ assms]) simp
  {
    assume "0 \<le> x"
    with le have "?g * of_int (2 ^ nat 52) \<le> x" unfolding b by simp
    from grid_ge [OF ulp_pos this] show "2 powi binade \<bar>x\<bar> \<le> round_f64 x"
      unfolding b round_f64_unfold .
  }
  {
    assume x: "x \<le> 0"
    have "?g * of_int (- (2 ^ nat 52)) = - (?g * of_int (2 ^ nat 52))" by simp
    with le x have "x \<le> ?g * of_int (- (2 ^ nat 52))" unfolding b by linarith
    from grid_le [OF ulp_pos this] have "round_f64 x \<le> ?g * of_int (- (2 ^ nat 52))"
      unfolding round_f64_unfold .
    then show "round_f64 x \<le> - (2 powi binade \<bar>x\<bar>)"
      unfolding b by simp
  }
qed

lemma round_f64_sign:
  shows "0 \<le> x \<Longrightarrow> 0 \<le> round_f64 x" and "x \<le> 0 \<Longrightarrow> round_f64 x \<le> 0"
proof -
  let ?g = "(2::real) powi (binade \<bar>x\<bar> - 52)"
  {
    assume "0 \<le> x"
    then have "?g * of_int 0 \<le> x" by simp
    from grid_ge [OF ulp_pos this] have "?g * of_int 0 \<le> round_f64 x"
      unfolding round_f64_unfold .
    then show "0 \<le> round_f64 x" by simp
  }
  {
    assume "x \<le> 0"
    then have "x \<le> ?g * of_int 0" by simp
    from grid_le [OF ulp_pos this] have "round_f64 x \<le> ?g * of_int 0"
      unfolding round_f64_unfold .
    then show "round_f64 x \<le> 0" by simp
  }
qed

lemma round_f64_mono:
  assumes "x \<le> y"
  shows "round_f64 x \<le> round_f64 y"
proof (cases "binade \<bar>x\<bar> = binade \<bar>y\<bar>")
  case True
  then show ?thesis using assms by (rule round_f64_same_binade)
next
  case False
  consider "0 \<le> x" | "y \<le> 0" | "x \<le> 0" "0 \<le> y" by linarith
  then show ?thesis
  proof cases
    case 1
    with assms have "\<bar>x\<bar> \<le> \<bar>y\<bar>" and y: "0 \<le> y" by simp_all
    then have "binade \<bar>x\<bar> \<le> binade \<bar>y\<bar>" by (intro binade_mono) simp_all
    with False have lt: "binade \<bar>x\<bar> \<le> binade \<bar>y\<bar> - 1" by simp
    with binade_spec(1) [of "\<bar>x\<bar>"] have n: "- 1022 < binade \<bar>y\<bar>" by simp
    from round_f64_le_boundary(1) [OF lt] have "round_f64 x \<le> 2 powi binade \<bar>y\<bar>"
      by simp
    also have "\<dots> \<le> round_f64 y" by (rule round_f64_ge_boundary(1) [OF n y])
    finally show ?thesis .
  next
    case 2
    with assms have "\<bar>y\<bar> \<le> \<bar>x\<bar>" and x: "x \<le> 0" by simp_all
    then have "binade \<bar>y\<bar> \<le> binade \<bar>x\<bar>" by (intro binade_mono) simp_all
    with False have lt: "binade \<bar>y\<bar> \<le> binade \<bar>x\<bar> - 1" by simp
    with binade_spec(1) [of "\<bar>y\<bar>"] have n: "- 1022 < binade \<bar>x\<bar>" by simp
    have "round_f64 x \<le> - (2 powi binade \<bar>x\<bar>)" by (rule round_f64_ge_boundary(2) [OF n x])
    also from round_f64_le_boundary(2) [OF lt] have "\<dots> \<le> round_f64 y" by simp
    finally show ?thesis .
  next
    case 3
    with round_f64_sign(2) [of x] round_f64_sign(1) [of y] show ?thesis by linarith
  qed
qed

lemma round_half_even_minus: "round_half_even (- y) = - round_half_even y"
proof (cases "y = of_int \<lfloor>y\<rfloor>")
  case True
  then obtain n where "y = of_int n" ..
  then show ?thesis using round_half_even_of_int [of n] round_half_even_of_int [of "- n"]
    by simp
next
  case False
  define f where "f = \<lfloor>y\<rfloor>"
  define r where "r = y - of_int f"
  from False have r: "0 < r" "r < 1" unfolding r_def f_def by linarith+
  have fm: "\<lfloor>- y\<rfloor> = - f - 1"
    using r by (intro floor_unique) (simp_all add: r_def)
  have rm: "- y - of_int (- f - 1) = 1 - r" by (simp add: r_def)
  have y: "round_half_even y = (if r < 1 / 2 then f else if r > 1 / 2 then f + 1 else if even f then f else f + 1)"
    by (simp add: round_half_even_def Let_def f_def r_def)
  have m: "round_half_even (- y) =
      (if 1 - r < 1 / 2 then - f - 1 else if 1 - r > 1 / 2 then - f else if even (- f - 1) then - f - 1 else - f)"
    unfolding round_half_even_def Let_def fm rm by simp
  show ?thesis unfolding y m by auto
qed

lemma round_f64_minus: "round_f64 (- x) = - round_f64 x"
  by (simp add: round_f64_unfold round_half_even_minus)

lemma round_f64_divisor_pos:
  assumes "v1 < 0" and "v2 \<ge> 0" and "round_f64 v1 = v1"
  shows "0 < round_f64 (v2 - v1)"
proof -
  have "- v1 \<le> v2 - v1" using assms(2) by simp
  then have "round_f64 (- v1) \<le> round_f64 (v2 - v1)" by (rule round_f64_mono)
  then show ?thesis using assms(1,3) by (simp add: round_f64_minus)
qed

lemma t_zero_f64_lower:
  assumes "v1 < 0" and "v2 \<ge> 0" and "t1 \<le> t2" and "round_f64 t1 = t1"
  shows "t1 \<le> t_zero_f64 t1 v1 t2 v2"
proof -
  define d where "d = round_f64 (t2 - t1)"
  define p where "p = round_f64 (v1 * d)"
  define w where "w = round_f64 (v2 - v1)"
  define q where "q = round_f64 (p / w)"
  have d: "0 \<le> d" unfolding d_def using assms(3) by (intro round_f64_sign(1)) simp
  have "v1 * d \<le> 0" using assms(1) d by (simp add: mult_le_0_iff)
  then have p: "p \<le> 0" unfolding p_def by (rule round_f64_sign(2))
  have w: "0 \<le> w" unfolding w_def using assms(1,2) by (intro round_f64_sign(1)) simp
  from p w have "p / w \<le> 0" by (simp add: divide_le_0_iff)
  then have "q \<le> 0" unfolding q_def by (rule round_f64_sign(2))
  then have "t1 \<le> t1 - q" by simp
  then have "round_f64 t1 \<le> round_f64 (t1 - q)" by (rule round_f64_mono)
  then show ?thesis
    by (simp add: assms(4) t_zero_f64_def q_def p_def w_def d_def)
qed

lemma candidate_f64_sign_change:
  assumes "idx \<in> set (sign_change_indices voltage)" and "length voltage \<le> length t"
  shows "candidate_f64 t voltage idx =
    Inr (t_zero_f64 (t ! idx) (voltage ! idx) (t ! (idx + 1)) (voltage ! (idx + 1)))"
proof -
  from assms(1) have r: "idx + 1 < length voltage" and s: "voltage ! idx < 0" "voltage ! (idx + 1) \<ge> 0"
    by (simp_all add: sign_change_indices_iff)
  from s have "voltage ! (idx + 1) \<noteq> voltage ! idx" by linarith
  with r assms(2) show ?thesis by (simp add: candidate_f64_def getitem_def)
qed

lemma candidates_f64_map:
  assumes "\<forall>idx \<in> set is. candidate_f64 t voltage idx = Inr (f idx)"
  shows "candidates_f64 t voltage is = Inr (map f is)"
  using assms by (induction "is") simp_all

lemma actual_crossing_f64_selects:
  assumes "length voltage \<le> length t" and "sign_change_indices voltage \<noteq> []"
  shows "\<exists>cs k. candidates_f64 t voltage (sign_change_indices voltage) = Inr cs \<and>
           cs = map (\<lambda>idx. t_zero_f64 (t ! idx) (voltage ! idx) (t ! (idx + 1)) (voltage ! (idx + 1)))
                  (sign_change_indices voltage) \<and>
           k < length cs \<and> actual_crossing_f64 t voltage cross = Inr (cs ! k)"
proof -
  define cs where "cs = map (\<lambda>idx. t_zero_f64 (t ! idx) (voltage ! idx) (t ! (idx + 1)) (voltage ! (idx + 1)))
                  (sign_change_indices voltage)"
  define ds where "ds = map (\<lambda>c. abs (round_f64 (c - cross))) cs"
  have c: "candidates_f64 t voltage (sign_change_indices voltage) = Inr cs"
    unfolding cs_def by (rule candidates_f64_map) (simp add: candidate_f64_sign_change assms(1))
  have "ds \<noteq> []" using assms(2) by (simp add: ds_def cs_def)
  from argmin_spec [OF this] obtain k where k: "k < length ds" "argmin ds = Inr k" by blast
  have len: "length ds = length cs" by (simp add: ds_def)
  have a: "actual_crossing_f64 t voltage cross = Inr (cs ! k)"
    using assms(2) c k len by (simp add: actual_crossing_f64_def ds_def [symmetric] getitem_def)
  from c a k(1) len show ?thesis
    unfolding cs_def [symmetric] by (intro exI [of _ cs] exI [of _ k]) simp
qed

lemma round_half_even_nearest:
  assumes "of_int n - 1 / 2 < y" and "y < of_int n + 1 / 2"
  shows "round_half_even y = n"
proof (cases "of_int n \<le> y")
  case True
  with assms(2) have "\<lfloor>y\<rfloor> = n" by (intro floor_unique) simp_all
  with assms(2) show ?thesis by (simp add: round_half_even_def)
next
  case False
  with assms(1) have f: "\<lfloor>y\<rfloor> = n - 1" by (intro floor_unique) simp_all
  from assms(1) have "\<not> y - of_int (n - 1) < 1 / 2" and "y - of_int (n - 1) > 1 / 2" by simp_all
  with f show ?thesis by (simp add: round_half_even_def)
qed

lemma round_half_even_tie:
  assumes "y = of_int n + 1 / 2" and "even n"
  shows "round_half_even y = n"
proof -
  have "\<lfloor>y\<rfloor> = n" unfolding assms(1) by (intro floor_unique) simp_all
  then show ?thesis using assms by (simp add: round_half_even_def)
qed

lemma binade_eqI:
  assumes "- 1022 \<le> e" and "2 powi e \<le> a" and "a < 2 powi (e + 1)"
  shows "binade a = e"
proof -
  have a: "0 \<le> a" using assms(2) zero_less_power_int [of "2::real" e] by linarith
  note s = binade_spec [OF a]
  have "\<not> binade a < e"
  proof
    assume "binade a < e"
    then have "(2::real) powi (binade a + 1) \<le> 2 powi e"
      by (intro power_int_increasing) simp_all
    with s(2) assms(2) show False by linarith
  qed
  moreover have "\<not> e < binade a"
  proof
    assume l: "e < binade a"
    with assms(1) have "- 1022 < binade a" by simp
    from s(3) [OF this] have "2 powi binade a \<le> a" .
    moreover from l have "(2::real) powi (e + 1) \<le> 2 powi binade a"
      by (intro power_int_increasing) simp_all
    ultimately show False using assms(3) by linarith
  qed
  ultimately show ?thesis by simp
qed

lemma round_f64_nearest:
  assumes "- 1022 \<le> e" and "2 powi e \<le> \<bar>x\<bar>" and "\<bar>x\<bar> < 2 powi (e + 1)"
    and "of_int n - 1 / 2 < x / 2 powi (e - 52)" and "x / 2 powi (e - 52) < of_int n + 1 / 2"
    and "r = 2 powi (e - 52) * of_int n"
  shows "round_f64 x = r"
proof -
  have "binade \<bar>x\<bar> = e" using assms(1-3) by (rule binade_eqI)
  moreover have "round_half_even (x / 2 powi (e - 52)) = n"
    using assms(4,5) by (rule round_half_even_nearest)
  ultimately show ?thesis unfolding round_f64_unfold assms(6) by simp
qed

lemma round_f64_tie_even:
  assumes "- 1022 \<le> e" and "2 powi e \<le> \<bar>x\<bar>" and "\<bar>x\<bar> < 2 powi (e + 1)"
    and "x / 2 powi (e - 52) = of_int n + 1 / 2" and "even n"
    and "r = 2 powi (e - 52) * of_int n"
  shows "round_f64 x = r"
proof -
  have "binade \<bar>x\<bar> = e" using assms(1-3) by (rule binade_eqI)
  moreover have "round_half_even (x / 2 powi (e - 52)) = n"
    using assms(4,5) by (rule round_half_even_tie)
  ultimately show ?thesis unfolding round_f64_unfold assms(6) by simp
qed

lemma round_f64_zero: "round_f64 0 = 0"
  using round_f64_sign(1) [of 0] round_f64_sign(2) [of 0] by simp

lemma collapse_step_d: "round_f64 (3 - 5 / 2) = 1 / 2"
  by (rule round_f64_nearest [where e = "- 1" and n = "2 ^ 52"]) simp_all

lemma collapse_step_p: "round_f64 (- (1 / 2 ^ 100) * (1 / 2)) = - (1 / 2 ^ 101)"
  by (rule round_f64_nearest [where e = "- 101" and n = "- (2 ^ 52)"]) simp_all

lemma collapse_step_w: "round_f64 (1 - - (1 / 2 ^ 100)) = 1"
  by (rule round_f64_nearest [where e = 0 and n = "2 ^ 52"]) simp_all

lemma collapse_step_q: "round_f64 (- (1 / 2 ^ 101) / 1) = - (1 / 2 ^ 101)"
  by (rule round_f64_nearest [where e = "- 101" and n = "- (2 ^ 52)"]) simp_all

lemma collapse_step_z: "round_f64 (5 / 2 - - (1 / 2 ^ 101)) = 5 / 2"
  by (rule round_f64_nearest [where e = 1 and n = "5 * 2 ^ 50"]) simp_all

lemma t_zero_f64_collapse: "t_zero_f64 (5 / 2) (- (1 / 2 ^ 100)) 3 1 = 5 / 2"
  by (simp only: t_zero_f64_def collapse_step_d collapse_step_p collapse_step_w collapse_step_q collapse_step_z)

lemma overshoot_step_d: "round_f64 (3 / 16 - 0) = 3 / 16"
  by (rule round_f64_nearest [where e = "- 3" and n = "6755399441055744"]) simp_all

lemma overshoot_step_p: "round_f64 (- (3602879701896397 / 18014398509481984) * (3 / 16))
    = - (1351079888211149 / 36028797018963968)"
  by (rule round_f64_tie_even [where e = "- 5" and n = "- 5404319552844596"]) simp_all

lemma overshoot_step_w: "round_f64 (0 - - (3602879701896397 / 18014398509481984))
    = 3602879701896397 / 18014398509481984"
  by (rule round_f64_nearest [where e = "- 3" and n = "7205759403792794"]) simp_all

lemma overshoot_step_q: "round_f64 (- (1351079888211149 / 36028797018963968) / (3602879701896397 / 18014398509481984))
    = - (6755399441055745 / 36028797018963968)"
  by (rule round_f64_nearest [where e = "- 3" and n = "- 6755399441055745"]) simp_all

lemma overshoot_step_z: "round_f64 (0 - - (6755399441055745 / 36028797018963968))
    = 6755399441055745 / 36028797018963968"
  by (rule round_f64_nearest [where e = "- 3" and n = "6755399441055745"]) simp_all

lemma t_zero_f64_overshoot: "t_zero_f64 0 (- (3602879701896397 / 18014398509481984)) (3 / 16) 0
    = 6755399441055745 / 36028797018963968"
  by (simp only: t_zero_f64_def overshoot_step_d overshoot_step_p overshoot_step_w overshoot_step_q overshoot_step_z)

lemma f64_sample_examples:
  "f64_sample (5 / 2)" "f64_sample 3" "f64_sample 1" "f64_sample (- 1)" "f64_sample 0"
  "f64_sample (3 / 16)" "f64_sample (- (1 / 2 ^ 100))"
  "f64_sample (- (3602879701896397 / 18014398509481984))"
proof -
  have "round_f64 (5 / 2) = 5 / 2"
    by (rule round_f64_nearest [where e = 1 and n = "5 * 2 ^ 50"]) simp_all
  then show "f64_sample (5 / 2)" by (simp add: f64_sample_def)
  have "round_f64 3 = 3"
    by (rule round_f64_nearest [where e = 1 and n = "3 * 2 ^ 51"]) simp_all
  then show "f64_sample 3" by (simp add: f64_sample_def)
  have "round_f64 1 = 1"
    by (rule round_f64_nearest [where e = 0 and n = "2 ^ 52"]) simp_all
  then show "f64_sample 1" by (simp add: f64_sample_def)
  have "round_f64 (- 1) = - 1"
    by (rule round_f64_nearest [where e = 0 and n = "- (2 ^ 52)"]) simp_all
  then show "f64_sample (- 1)" by (simp add: f64_sample_def)
  show "f64_sample 0" by (simp add: f64_sample_def round_f64_zero)
  have "round_f64 (3 / 16) = 3 / 16"
    by (rule round_f64_nearest [where e = "- 3" and n = "6755399441055744"]) simp_all
  then show "f64_sample (3 / 16)" by (simp add: f64_sample_def)
  have "round_f64 (- (1 / 2 ^ 100)) = - (1 / 2 ^ 100)"
    by (rule round_f64_nearest [where e = "- 100" and n = "- (2 ^ 52)"]) simp_all
  then show "f64_sample (- (1 / 2 ^ 100))" by (simp add: f64_sample_def)
  have "round_f64 (- (3602879701896397 / 18014398509481984))
      = - (3602879701896397 / 18014398509481984)"
    by (rule round_f64_nearest [where e = "- 3" and n = "- 7205759403792794"]) simp_all
  then show "f64_sample (- (3602879701896397 / 18014398509481984))"
    by (simp add: f64_sample_def)
qed

text \<open>
  Two inputs of float64 samples on which the computed crossing leaves the half-open
  bracket: with \<open>t = [2.5, 3.0]\<close> and \<open>voltage = [-2^-100, 1.0]\<close> it is \<open>t[idx]\<close> itself, and
  with \<open>t = [0.0, 0.1875]\<close> and \<open>voltage = [-0.2, 0.0]\<close> it is \<open>0.18750000000000003\<close>, above
  \<open>t[idx+1]\<close> and so after the last sample of the window.
\<close>

theorem candidates_f64_counterexample:
  "f64_sample (5 / 2) \<and> f64_sample 3 \<and> f64_sample (- (1 / 2 ^ 100)) \<and> f64_sample 1 \<and>
   0 \<in> set (sign_change_indices [- (1 / 2 ^ 100), 1]) \<and>
   [5 / 2, 3 :: real] ! 0 < [5 / 2, 3] ! (0 + 1) \<and>
   candidate_f64 [5 / 2, 3] [- (1 / 2 ^ 100), 1] 0 = Inr ([5 / 2, 3] ! 0) \<and>
   f64_sample 0 \<and> f64_sample (3 / 16) \<and>
   f64_sample (- (3602879701896397 / 18014398509481984)) \<and>
   0 \<in> set (sign_change_indices [- (3602879701896397 / 18014398509481984), 0]) \<and>
   [0, 3 / 16 :: real] ! 0 < [0, 3 / 16] ! (0 + 1) \<and>
   candidate_f64 [0, 3 / 16] [- (3602879701896397 / 18014398509481984), 0] 0
     = Inr (6755399441055745 / 36028797018963968) \<and>
   [0, 3 / 16 :: real] ! (0 + 1) < 6755399441055745 / 36028797018963968 \<and>
   actual_crossing_f64 [0, 3 / 16] [- (3602879701896397 / 18014398509481984), 0] 0
     = Inr (6755399441055745 / 36028797018963968) \<and>
   last [0, 3 / 16 :: real] < 6755399441055745 / 36028797018963968"
proof -
  let ?v = "- (3602879701896397 / 18014398509481984) :: real"
  let ?z = "6755399441055745 / 36028797018963968 :: real"
  have s1: "0 \<in> set (sign_change_indices [- (1 / 2 ^ 100), 1])"
    by (simp add: sign_change_indices_iff)
  have s2: "0 \<in> set (sign_change_indices [?v, 0])"
    by (simp add: sign_change_indices_iff)
  have o1: "[5 / 2, 3 :: real] ! 0 < [5 / 2, 3] ! (0 + 1)" by simp
  have o2: "[0, 3 / 16 :: real] ! 0 < [0, 3 / 16] ! (0 + 1)" by simp
  have "candidate_f64 [5 / 2, 3] [- (1 / 2 ^ 100), 1] 0
      = Inr (t_zero_f64 (5 / 2) (- (1 / 2 ^ 100)) 3 1)"
    by (simp add: candidate_f64_def getitem_def)
  also have "\<dots> = Inr (5 / 2)" by (simp only: t_zero_f64_collapse)
  also have "\<dots> = Inr ([5 / 2, 3] ! 0)" by simp
  finally have c1: "candidate_f64 [5 / 2, 3] [- (1 / 2 ^ 100), 1] 0 = Inr ([5 / 2, 3] ! 0)" .
  have "candidate_f64 [0, 3 / 16] [?v, 0] 0 = Inr (t_zero_f64 0 ?v (3 / 16) 0)"
    by (simp add: candidate_f64_def getitem_def)
  also have "\<dots> = Inr ?z" by (simp only: t_zero_f64_overshoot)
  finally have c2: "candidate_f64 [0, 3 / 16] [?v, 0] 0 = Inr ?z" .
  have i: "sign_change_indices [?v, 0] = [0]"
    by (simp add: sign_change_indices_def np_where_def sign_change_mask_def)
  have "candidates_f64 [0, 3 / 16] [?v, 0] [0] = Inr [?z]"
    unfolding candidates_f64.simps c2 by simp
  then have a: "actual_crossing_f64 [0, 3 / 16] [?v, 0] 0 = Inr ?z"
    unfolding actual_crossing_f64_def i by (simp add: getitem_def)
  have b1: "[0, 3 / 16 :: real] ! (0 + 1) < ?z" by simp
  have b2: "last [0, 3 / 16 :: real] < ?z" by simp
  from f64_sample_examples s1 s2 o1 o2 c1 c2 a b1 b2 show ?thesis by blast
qed

text \<open>
  Claim C10, as float64 computes it. For float64 samples, at a detected sign-change index
  with \<open>t[idx] < t[idx+1]\<close> the rounded divisor is positive and the computed crossing time
  is not before the bracket: \<open>t[idx] <= t_zero\<close>, where equality can occur; no bound by
  \<open>t[idx+1]\<close> is stated. Hence,
  on a strictly increasing time axis, every candidate, and the selected crossing when there
  is a candidate, is at or after its \<open>t[idx]\<close> and so at or after the first sample of the
  window.
\<close>

theorem candidates_f64_lower_bound:
  assumes "length t = length voltage"
    and "\<forall>x \<in> set t. f64_sample x" and "\<forall>x \<in> set voltage. f64_sample x"
    and "f64_sample cross"
  shows "(\<forall>idx \<in> set (sign_change_indices voltage). t ! idx < t ! (idx + 1) \<longrightarrow>
            0 < round_f64 (voltage ! (idx + 1) - voltage ! idx) \<and>
            (\<exists>c. candidate_f64 t voltage idx = Inr c \<and> t ! idx \<le> c))
       \<and> (sorted_wrt (<) t \<and> sign_change_indices voltage \<noteq> [] \<longrightarrow>
            (\<exists>cs a. candidates_f64 t voltage (sign_change_indices voltage) = Inr cs \<and>
                (\<forall>c \<in> set cs. hd t \<le> c) \<and>
                actual_crossing_f64 t voltage cross = Inr a \<and> a \<in> set cs \<and>
                (\<exists>idx \<in> set (sign_change_indices voltage). t ! idx \<le> a) \<and>
                hd t \<le> a))"
proof (intro conjI ballI impI)
  let ?f = "\<lambda>idx. t_zero_f64 (t ! idx) (voltage ! idx) (t ! (idx + 1)) (voltage ! (idx + 1))"
  have lo: "t ! idx \<le> ?f idx"
    if i: "idx \<in> set (sign_change_indices voltage)" and lt: "t ! idx < t ! (idx + 1)" for idx
  proof -
    from i have r: "idx + 1 < length t" and v: "voltage ! idx < 0" "voltage ! (idx + 1) \<ge> 0"
      using assms(1) by (simp_all add: sign_change_indices_iff)
    from r have "t ! idx \<in> set t" by simp
    with assms(2) have "round_f64 (t ! idx) = t ! idx" by (auto simp: f64_sample_def)
    with v lt show ?thesis by (intro t_zero_f64_lower) simp_all
  qed
  from assms(1) have le: "length voltage \<le> length t" by simp
  {
    fix idx assume i: "idx \<in> set (sign_change_indices voltage)" and lt: "t ! idx < t ! (idx + 1)"
    from lo [OF i lt] candidate_f64_sign_change [OF i le]
    show "\<exists>c. candidate_f64 t voltage idx = Inr c \<and> t ! idx \<le> c" by simp
    from i have r: "idx + 1 < length voltage" and v: "voltage ! idx < 0" "voltage ! (idx + 1) \<ge> 0"
      by (simp_all add: sign_change_indices_iff)
    from r have "voltage ! idx \<in> set voltage" by simp
    with assms(3) have "round_f64 (voltage ! idx) = voltage ! idx" by (auto simp: f64_sample_def)
    with v show "0 < round_f64 (voltage ! (idx + 1) - voltage ! idx)"
      by (intro round_f64_divisor_pos)
  }
  assume "sorted_wrt (<) t \<and> sign_change_indices voltage \<noteq> []"
  then have st: "sorted_wrt (<) t" and ne: "sign_change_indices voltage \<noteq> []" by simp_all
  have br: "t ! idx \<le> ?f idx \<and> hd t \<le> ?f idx"
    if i: "idx \<in> set (sign_change_indices voltage)" for idx
  proof -
    from i have r: "idx + 1 < length t" using assms(1) by (simp add: sign_change_indices_iff)
    then have "t ! idx < t ! (idx + 1)"
      using sorted_wrt_nth_less [OF st, of idx "idx + 1"] by simp
    from lo [OF i this] have "t ! idx \<le> ?f idx" .
    moreover from r have "hd t \<le> t ! idx"
      using strictly_increasing_window [OF st, of idx] by simp
    ultimately show ?thesis by linarith
  qed
  from actual_crossing_f64_selects [OF le ne, of cross]
  obtain cs k where c: "candidates_f64 t voltage (sign_change_indices voltage) = Inr cs"
    and cs: "cs = map ?f (sign_change_indices voltage)" and k: "k < length cs"
    and a: "actual_crossing_f64 t voltage cross = Inr (cs ! k)" by blast
  have all: "\<forall>c \<in> set cs. hd t \<le> c" using br by (auto simp: cs)
  have mem: "cs ! k \<in> set cs" using k by simp
  from k have ki: "sign_change_indices voltage ! k \<in> set (sign_change_indices voltage)"
    and kf: "cs ! k = ?f (sign_change_indices voltage ! k)" by (simp_all add: cs)
  from br [OF ki] have "\<exists>idx \<in> set (sign_change_indices voltage). t ! idx \<le> cs ! k"
    using ki unfolding kf by blast
  with c all a mem show "\<exists>cs a. candidates_f64 t voltage (sign_change_indices voltage) = Inr cs \<and>
                (\<forall>c \<in> set cs. hd t \<le> c) \<and>
                actual_crossing_f64 t voltage cross = Inr a \<and> a \<in> set cs \<and>
                (\<exists>idx \<in> set (sign_change_indices voltage). t ! idx \<le> a) \<and>
                hd t \<le> a"
    by (intro exI [of _ cs] exI [of _ "cs ! k"]) auto
qed

theorem candidates_f64_lower_bound_witness:
  "length [5 / 2, 3 :: real] = length [- 1, 1 :: real] \<and>
   sorted_wrt (<) [5 / 2, 3 :: real] \<and> sign_change_indices [- 1, 1] \<noteq> [] \<and>
   (\<exists>a. actual_crossing_f64 [5 / 2, 3] [- 1, 1] 3 = Inr a \<and> 5 / 2 \<le> a)"
proof -
  have s: "sign_change_indices [- 1, 1] = [0]"
    by (simp add: sign_change_indices_def np_where_def sign_change_mask_def)
  have h1: "length [5 / 2, 3 :: real] = length [- 1, 1 :: real]" by simp
  have h2: "\<forall>x \<in> set [5 / 2, 3 :: real]. f64_sample x"
    using f64_sample_examples by simp
  have h3: "\<forall>x \<in> set [- 1, 1 :: real]. f64_sample x"
    using f64_sample_examples by simp
  have h4: "f64_sample 3" by (rule f64_sample_examples)
  have h5: "sorted_wrt (<) [5 / 2, 3 :: real] \<and> sign_change_indices [- 1, 1] \<noteq> []"
    by (simp add: s)
  from candidates_f64_lower_bound [OF h1 h2 h3 h4, THEN conjunct2, rule_format, OF h5]
  obtain a where "actual_crossing_f64 [5 / 2, 3] [- 1, 1] 3 = Inr a"
    and "hd [5 / 2, 3 :: real] \<le> a" by blast
  with h1 h5 show ?thesis by auto
qed

section \<open>Properties of the peak detector and of the XOR signal\<close>

lemma length_maximum_accumulate_from: "length (maximum_accumulate_from acc xs) = length xs"
  by (induction xs arbitrary: acc) simp_all

lemma nth_maximum_accumulate_from:
  "i < length xs \<Longrightarrow> maximum_accumulate_from acc xs ! i = max acc (Max (set (take (Suc i) xs)))"
proof (induction xs arbitrary: acc i)
  case Nil
  then show ?case by simp
next
  case (Cons x xs)
  show ?case
  proof (cases i)
    case 0
    then show ?thesis by simp
  next
    case (Suc j)
    with Cons.prems have j: "j < length xs" by simp
    then have ne: "set (take (Suc j) xs) \<noteq> {}" by (cases xs) auto
    have "maximum_accumulate_from acc (x # xs) ! i = max (max acc x) (Max (set (take (Suc j) xs)))"
      using Cons.IH [OF j, of "max acc x"] Suc by simp
    also have "\<dots> = max acc (max x (Max (set (take (Suc j) xs))))"
      by (simp add: max.assoc)
    also have "max x (Max (set (take (Suc j) xs))) = Max (insert x (set (take (Suc j) xs)))"
      using ne by simp
    finally show ?thesis using Suc by simp
  qed
qed

lemma maximum_accumulate_from_ge:
  "y \<in> set (maximum_accumulate_from acc xs) \<Longrightarrow> acc \<le> y"
proof (induction xs arbitrary: acc)
  case Nil
  then show ?case by simp
next
  case (Cons x xs)
  from Cons.prems have "y = max acc x \<or> y \<in> set (maximum_accumulate_from (max acc x) xs)"
    by simp
  then show ?case
  proof
    assume "y = max acc x" then show ?thesis by simp
  next
    assume "y \<in> set (maximum_accumulate_from (max acc x) xs)"
    from Cons.IH [OF this] show ?thesis by simp
  qed
qed

lemma sorted_maximum_accumulate_from: "sorted (maximum_accumulate_from acc xs)"
  by (induction xs arbitrary: acc) (auto dest: maximum_accumulate_from_ge)

lemma length_maximum_accumulate: "length (maximum_accumulate xs) = length xs"
  by (cases xs) (simp_all add: length_maximum_accumulate_from)

lemma nth_maximum_accumulate:
  assumes "i < length xs"
  shows "maximum_accumulate xs ! i = Max (set (take (Suc i) xs))"
proof (cases xs)
  case Nil
  with assms show ?thesis by simp
next
  case (Cons x ys)
  show ?thesis
  proof (cases i)
    case 0
    then show ?thesis by (simp add: Cons)
  next
    case (Suc j)
    with assms Cons have j: "j < length ys" by simp
    then have ne: "set (take (Suc j) ys) \<noteq> {}" by (cases ys) auto
    have "maximum_accumulate xs ! i = max x (Max (set (take (Suc j) ys)))"
      using nth_maximum_accumulate_from [OF j, of x] by (simp add: Cons Suc)
    also have "\<dots> = Max (insert x (set (take (Suc j) ys)))"
      using ne by simp
    finally show ?thesis by (simp add: Cons Suc)
  qed
qed

lemma sorted_maximum_accumulate: "sorted (maximum_accumulate xs)"
  by (cases xs) (auto simp: sorted_maximum_accumulate_from dest: maximum_accumulate_from_ge)

lemma above_threshold_high:
  assumes "v \<in> {0, 3.3 :: real}"
  shows "v > 1.65 \<longleftrightarrow> v = 3.3"
  using assms by auto

text \<open>
  Claim C4. The output of the peak detector has the length of the input, its entry at
  every index \<open>i\<close> is the maximum of the input over the indices \<open>0..i\<close>, and the output is
  non-decreasing.
\<close>

theorem peak_detector_prefix_max:
  "length (peak_detector voltage) = length voltage \<and>
   (\<forall>i < length voltage. peak_detector voltage ! i = Max (set (take (Suc i) voltage))) \<and>
   sorted (peak_detector voltage)"
  by (simp add: peak_detector_def length_maximum_accumulate nth_maximum_accumulate
      sorted_maximum_accumulate)

theorem peak_detector_prefix_max_witness:
  "peak_detector [1, 3, 2, 5, -1] ! 2 = 3 \<and> sorted (peak_detector [1, 3, 2, 5, -1])"
proof -
  from peak_detector_prefix_max [of "[1, 3, 2, 5, -1]"]
  have "peak_detector [1, 3, 2, 5, -1] ! 2 = Max (set (take (Suc 2) [1, 3, 2, 5, -1 :: real]))"
    and "sorted (peak_detector [1, 3, 2, 5, -1])" by simp_all
  then show ?thesis by simp
qed

text \<open>
  Claim C5. For two square waves of the same length with values in \<open>{0, 3.3}\<close>, the XOR
  signal is computed without error and, at each index, is \<open>3.3\<close> when exactly one of the
  two thresholded booleans (\<open>value > 1.65\<close>, that is: the value is the high level) is true,
  and \<open>0\<close> otherwise.
\<close>

theorem xor_sig_elementwise:
  assumes "length sq1 = length sq2" and "set sq1 \<subseteq> {0, 3.3}" and "set sq2 \<subseteq> {0, 3.3}"
  shows "\<exists>xs. xor_sig sq1 sq2 = Inr xs \<and> length xs = length sq1 \<and>
           (\<forall>i < length sq1.
              xs ! i = (if (sq1 ! i > 1.65) \<noteq> (sq2 ! i > 1.65) then 3.3 else 0) \<and>
              xs ! i = (if (sq1 ! i = 3.3) \<noteq> (sq2 ! i = 3.3) then 3.3 else 0))"
proof -
  let ?xs = "map2 (\<lambda>a b. if (a > 1.65) \<noteq> (b > 1.65) then 3.3 else 0 :: real) sq1 sq2"
  have x: "xor_sig sq1 sq2 = Inr ?xs"
    using assms(1) by (simp add: xor_sig_def logical_xor_def above_threshold_def zip_map_map
        split_def)
  have "?xs ! i = (if (sq1 ! i > 1.65) \<noteq> (sq2 ! i > 1.65) then 3.3 else 0) \<and>
        ?xs ! i = (if (sq1 ! i = 3.3) \<noteq> (sq2 ! i = 3.3) then 3.3 else 0)"
    if i: "i < length sq1" for i
  proof -
    from i assms(1) have "sq1 ! i \<in> set sq1" and "sq2 ! i \<in> set sq2"
      by simp_all
    with assms(2,3) have "sq1 ! i \<in> {0, 3.3}" and "sq2 ! i \<in> {0, 3.3}"
      by blast+
    then have "(sq1 ! i > 1.65) = (sq1 ! i = 3.3)" and "(sq2 ! i > 1.65) = (sq2 ! i = 3.3)"
      by (simp_all only: above_threshold_high)
    moreover have "?xs ! i = (if (sq1 ! i > 1.65) \<noteq> (sq2 ! i > 1.65) then 3.3 else 0)"
      using i assms(1) by simp
    ultimately show ?thesis by simp
  qed
  with x assms(1) show ?thesis by (intro exI [of _ ?xs]) simp
qed

theorem xor_sig_elementwise_witness:
  "xor_sig [0, 3.3, 3.3, 0] [0, 0, 3.3, 3.3] = Inr [0, 3.3, 0, 3.3]"
proof -
  let ?a = "[0, 3.3, 3.3, 0 :: real]" and ?b = "[0, 0, 3.3, 3.3 :: real]"
  have h1: "length ?a = length ?b" by simp
  have h2: "set ?a \<subseteq> {0, 3.3}" by simp
  have h3: "set ?b \<subseteq> {0, 3.3}" by simp
  from xor_sig_elementwise [OF h1 h2 h3] obtain xs where
    x: "xor_sig ?a ?b = Inr xs" and l: "length xs = length ?a"
    and n: "\<forall>i < length ?a. xs ! i = (if (?a ! i > 1.65) \<noteq> (?b ! i > 1.65) then 3.3 else 0) \<and>
              xs ! i = (if (?a ! i = 3.3) \<noteq> (?b ! i = 3.3) then 3.3 else 0)"
    by blast
  from n [rule_format, of 0] n [rule_format, of 1] n [rule_format, of 2] n [rule_format, of 3]
  have "xs ! 0 = 0" "xs ! 1 = 3.3" "xs ! 2 = 0" "xs ! 3 = 3.3" by simp_all
  moreover from l obtain a b c d where "xs = [a, b, c, d]"
    by (auto simp: length_Suc_conv)
  ultimately have "xs = [0, 3.3, 0, 3.3]" by simp
  with x show ?thesis by simp
qed

section \<open>Properties of the font resolution\<close>

lemma find_append_cases:
  "find P (xs @ ys) = (case find P xs of Some x \<Rightarrow> Some x | None \<Rightarrow> find P ys)"
  by (induction xs) simp_all

lemma search_directory_find:
  "search_directory target files = find (\<lambda>p. name_matches target p \<and> not_bold_italic p) files"
  by (induction files) simp_all

lemma found_file_find:
  "found_file target search_dirs =
     find (\<lambda>p. name_matches target p \<and> not_bold_italic p) (searched_files search_dirs)"
proof (induction target search_dirs rule: found_file.induct)
  case (1 target)
  show ?case by (simp add: searched_files_def)
next
  case (2 target search_dirs)
  then show ?case by (simp add: searched_files_def)
next
  case (3 target files search_dirs)
  show ?case
  proof (cases "search_directory target files")
    case None
    with 3 show ?thesis
      by (simp add: searched_files_def search_directory_find find_append_cases)
  next
    case (Some p)
    then show ?thesis
      by (simp add: searched_files_def search_directory_find find_append_cases)
  qed
qed

lemma first_pass_find: "first_pass cands = find clean_name cands"
  by (induction cands) simp_all

lemma found_path_find:
  assumes "[] \<notin> set system_fonts"
  shows "found_path font_name system_fonts =
     (case find clean_name (font_candidates font_name system_fonts) of
        Some p \<Rightarrow> Some p
      | None \<Rightarrow> (case font_candidates font_name system_fonts of [] \<Rightarrow> None | c # rest \<Rightarrow> Some c))"
proof (cases "find clean_name (font_candidates font_name system_fonts)")
  case None
  then show ?thesis
    by (cases "font_candidates font_name system_fonts")
      (simp_all add: found_path_def first_pass_find)
next
  case (Some p)
  then have "p \<in> set (font_candidates font_name system_fonts)"
    by (auto simp: find_Some_iff)
  then have "p \<in> set system_fonts" by (simp add: font_candidates_def)
  with assms have "p \<noteq> []" by auto
  moreover from Some have "font_candidates font_name system_fonts \<noteq> []" by auto
  ultimately show ?thesis using Some by (simp add: found_path_def first_pass_find)
qed

lemma font_section_not_found:
  assumes "found_file target search_dirs = None"
  shows "\<exists>st'. font_section fm target search_dirs st = Completed st' \<and>
           font_family st' = ''monospace''"
  using assms by (simp add: font_section_def print_def)

lemma font_handling_not_found:
  assumes "lower font_name \<notin> set (map lower (ttflist fm))"
    and "findSystemFonts fm = Inr system_fonts"
    and "\<not> truthy (found_path font_name system_fonts)"
  shows "\<exists>st'. font_handling fm font_name st = Completed st' \<and> font_family st' = ''sans-serif''"
  using assms by (simp add: font_handling_def font_try_block_def print_def Let_def)

lemma load_font_raised:
  assumes "addfont fm file = Inl x \<or> (addfont fm file = Inr u \<and> get_name fm file = Inl x)"
  shows "load_font fm file st = Raised x st"
  using assms by (auto simp: load_font_def)

lemma font_section_completes: "\<exists>st'. font_section fm target search_dirs st = Completed st'"
  by (simp add: font_section_def Let_def split: option.splits outcome.splits py_exn.splits)

lemma font_section_load_raised:
  assumes "found_file target search_dirs = Some file"
    and "load_font fm file (print (''Searching for font files matching '' @ [CHR 0x27] @ target
                         @ [CHR 0x27] @ ''...'') st) = Raised (Exception e) st1"
  shows "\<exists>st'. font_section fm target search_dirs st = Completed st' \<and>
           font_family st' = ''monospace'' \<and> (''Error loading font file: '' @ e) \<in> set (stdout st')"
  using assms by (simp add: font_section_def print_def)

lemma font_handling_completes: "\<exists>st'. font_handling fm font_name st = Completed st'"
  by (simp add: font_handling_def split: outcome.splits py_exn.splits)

lemma font_handling_raised:
  assumes "font_try_block fm font_name st = Raised (Exception e) st1"
  shows "\<exists>st'. font_handling fm font_name st = Completed st' \<and> font_family st' = ''sans-serif'' \<and>
           (''Font warning: '' @ e @ ''. Falling back to default.'') \<in> set (stdout st')"
  using assms by (simp add: font_handling_def print_def)

lemma font_try_block_raised:
  assumes "lower font_name \<notin> set (map lower (ttflist fm))"
    and "findSystemFonts fm = Inl x \<or>
         (\<exists>system_fonts p. findSystemFonts fm = Inr system_fonts \<and>
             found_path font_name system_fonts = Some p \<and> p \<noteq> [] \<and>
             (addfont fm p = Inl x \<or> (addfont fm p = Inr () \<and> get_name fm p = Inl x)))"
  shows "\<exists>st1. font_try_block fm font_name st = Raised x st1"
  using assms by (auto simp: font_try_block_def Let_def)

text \<open>
  Two inputs on which the resolvers depart from one common rule (prefer a clean match,
  else take the first match): with only a bold match the directory search returns none,
  not that match; and the search of the system fonts returns a bold candidate although a
  later candidate, named oblique, is neither bold nor italic.
\<close>

theorem font_resolution_counterexample:
  "name_matches ''IoskeleyMono_Regular'' ''/usr/share/fonts/IoskeleyMono_Regular-Bold.ttf'' \<and>
   found_file ''IoskeleyMono_Regular''
     [Some [''/usr/share/fonts/IoskeleyMono_Regular-Bold.ttf'']] = None \<and>
   is_candidate ''Ioskeley Mono'' ''/f/IoskeleyMono-Oblique.ttf'' \<and>
   not_bold_italic ''/f/IoskeleyMono-Oblique.ttf'' \<and>
   is_candidate ''Ioskeley Mono'' ''/f/IoskeleyMono-Bold.ttf'' \<and>
   found_path ''Ioskeley Mono'' [''/f/IoskeleyMono-Bold.ttf'', ''/f/IoskeleyMono-Oblique.ttf'']
     = Some ''/f/IoskeleyMono-Bold.ttf''"
  by code_simp

text \<open>
  Claim C6, as the code has it. The directory search (makec.py and the two makechart.py
  scripts) returns the first file, in the order of the directories and of their listings,
  whose name contains the target (case-insensitively) and contains neither \<open>bold\<close> nor
  \<open>italic\<close>: with such a file present it returns one, bold and italic variants are never
  returned, and without one (in particular when no name contains the target) it returns
  none and the family \<open>monospace\<close> is selected. The search of the system fonts
  (peak\_detect\_chart.py) returns the first candidate whose name contains none of
  \<open>italic\<close>, \<open>bold\<close>, \<open>oblique\<close> when there is one, and the first candidate otherwise; with
  no candidate it returns none and the family \<open>sans-serif\<close> is selected.
\<close>

theorem font_resolution:
  "found_file target search_dirs =
     find (\<lambda>p. name_matches target p \<and> not_bold_italic p) (searched_files search_dirs)
   \<and> ((\<exists>p \<in> set (searched_files search_dirs). name_matches target p \<and> not_bold_italic p) \<longrightarrow>
        (\<exists>q \<in> set (searched_files search_dirs).
            found_file target search_dirs = Some q \<and> name_matches target q \<and> not_bold_italic q))
   \<and> ((\<forall>p \<in> set (searched_files search_dirs). \<not> (name_matches target p \<and> not_bold_italic p)) \<longrightarrow>
        found_file target search_dirs = None \<and>
        (\<exists>st'. font_section fm target search_dirs st = Completed st' \<and>
               font_family st' = ''monospace''))
   \<and> ([] \<notin> set system_fonts \<longrightarrow>
        found_path font_name system_fonts =
          (case find clean_name (font_candidates font_name system_fonts) of
             Some p \<Rightarrow> Some p
           | None \<Rightarrow> (case font_candidates font_name system_fonts of
                        [] \<Rightarrow> None | c # rest \<Rightarrow> Some c)))
   \<and> (font_candidates font_name system_fonts = [] \<longrightarrow>
        found_path font_name system_fonts = None \<and>
        (lower font_name \<notin> set (map lower (ttflist fm)) \<and> findSystemFonts fm = Inr system_fonts \<longrightarrow>
           (\<exists>st'. font_handling fm font_name st = Completed st' \<and>
                  font_family st' = ''sans-serif'')))"
proof (intro conjI impI)
  let ?P = "\<lambda>p. name_matches target p \<and> not_bold_italic p"
  show a: "found_file target search_dirs = find ?P (searched_files search_dirs)"
    by (rule found_file_find)
  {
    assume "\<exists>p \<in> set (searched_files search_dirs). ?P p"
    then have "find ?P (searched_files search_dirs) \<noteq> None"
      by (auto simp: find_None_iff)
    then obtain q where q: "find ?P (searched_files search_dirs) = Some q" by blast
    then have "q \<in> set (searched_files search_dirs)" and "?P q"
      by (auto simp: find_Some_iff)
    with q a show "\<exists>q \<in> set (searched_files search_dirs).
            found_file target search_dirs = Some q \<and> name_matches target q \<and> not_bold_italic q"
      by auto
  }
  {
    assume "\<forall>p \<in> set (searched_files search_dirs). \<not> ?P p"
    then have "find ?P (searched_files search_dirs) = None"
      by (simp add: find_None_iff)
    with a show n: "found_file target search_dirs = None" by simp
    from font_section_not_found [OF n]
    show "\<exists>st'. font_section fm target search_dirs st = Completed st' \<and>
               font_family st' = ''monospace''" .
  }
  {
    assume "[] \<notin> set system_fonts"
    then show "found_path font_name system_fonts =
          (case find clean_name (font_candidates font_name system_fonts) of
             Some p \<Rightarrow> Some p
           | None \<Rightarrow> (case font_candidates font_name system_fonts of
                        [] \<Rightarrow> None | c # rest \<Rightarrow> Some c))"
      by (rule found_path_find)
  }
  {
    assume e: "font_candidates font_name system_fonts = []"
    then show n: "found_path font_name system_fonts = None"
      by (simp add: found_path_def)
    assume "lower font_name \<notin> set (map lower (ttflist fm)) \<and> findSystemFonts fm = Inr system_fonts"
    then have "lower font_name \<notin> set (map lower (ttflist fm))"
      and "findSystemFonts fm = Inr system_fonts" by simp_all
    moreover from n have "\<not> truthy (found_path font_name system_fonts)" by simp
    ultimately show "\<exists>st'. font_handling fm font_name st = Completed st' \<and>
                  font_family st' = ''sans-serif''"
      by (rule font_handling_not_found)
  }
qed

theorem font_resolution_witness:
  "found_file ''IoskeleyMono_Regular''
      [None, Some [''/usr/share/fonts/a/IoskeleyMono_Regular-Bold.ttf'',
                   ''/usr/share/fonts/a/IoskeleyMono_Regular.ttf'']]
     = Some ''/usr/share/fonts/a/IoskeleyMono_Regular.ttf'' \<and>
   found_file ''IoskeleyMono_Regular''
      [None, Some [''/usr/share/fonts/a/IoskeleyMono_Regular-Bold.ttf'']] = None \<and>
   (\<exists>st'. font_section \<lparr>ttflist = [], findSystemFonts = Inr [], addfont = (\<lambda>p. Inr ()),
                          get_name = (\<lambda>p. Inr ''Ioskeley Mono'')\<rparr>
            ''IoskeleyMono_Regular''
            [None, Some [''/usr/share/fonts/a/IoskeleyMono_Regular-Bold.ttf'']]
            \<lparr>font_family = ''sans-serif'', stdout = []\<rparr> = Completed st' \<and>
          font_family st' = ''monospace'') \<and>
   found_path ''Ioskeley Mono'' [''/f/IoskeleyMono-Bold.ttf'', ''/f/DejaVuSans.ttf'']
     = Some ''/f/IoskeleyMono-Bold.ttf'' \<and>
   found_path ''Ioskeley Mono'' [''/f/DejaVuSans.ttf''] = None \<and>
   (\<exists>st'. font_handling \<lparr>ttflist = [''DejaVu Sans''], findSystemFonts = Inr [''/f/DejaVuSans.ttf''],
                           addfont = (\<lambda>p. Inr ()), get_name = (\<lambda>p. Inr ''Ioskeley Mono'')\<rparr>
            ''Ioskeley Mono'' \<lparr>font_family = ''serif'', stdout = []\<rparr> = Completed st' \<and>
          font_family st' = ''sans-serif'')"
proof -
  let ?T = "''IoskeleyMono_Regular''"
  let ?bold = "''/usr/share/fonts/a/IoskeleyMono_Regular-Bold.ttf''"
  let ?regular = "''/usr/share/fonts/a/IoskeleyMono_Regular.ttf''"
  let ?fm1 = "\<lparr>ttflist = [], findSystemFonts = Inr [], addfont = (\<lambda>p. Inr ()),
               get_name = (\<lambda>p. Inr ''Ioskeley Mono'')\<rparr>"
  let ?fm2 = "\<lparr>ttflist = [''DejaVu Sans''], findSystemFonts = Inr [''/f/DejaVuSans.ttf''],
               addfont = (\<lambda>p. Inr ()), get_name = (\<lambda>p. Inr ''Ioskeley Mono'')\<rparr>"
  let ?st1 = "\<lparr>font_family = ''sans-serif'', stdout = []\<rparr>"
  let ?st2 = "\<lparr>font_family = ''serif'', stdout = []\<rparr>"
  have m1: "\<not> (name_matches ?T ?bold \<and> not_bold_italic ?bold)" by code_simp
  have m2: "name_matches ?T ?regular \<and> not_bold_italic ?regular" by code_simp
  have f1: "searched_files [None, Some [?bold, ?regular]] = [?bold, ?regular]"
    and f2: "searched_files [None, Some [?bold]] = [?bold]"
    by (simp_all add: searched_files_def)
  have a: "found_file ?T [None, Some [?bold, ?regular]] = Some ?regular"
    using font_resolution [of ?T "[None, Some [?bold, ?regular]]", THEN conjunct1] m1 m2
    unfolding f1 by simp
  have h: "\<forall>p \<in> set (searched_files [None, Some [?bold]]).
             \<not> (name_matches ?T p \<and> not_bold_italic p)"
    unfolding f2 using m1 by simp
  have b: "found_file ?T [None, Some [?bold]] = None \<and>
        (\<exists>st'. font_section ?fm1 ?T [None, Some [?bold]] ?st1 = Completed st' \<and>
               font_family st' = ''monospace'')"
    using font_resolution [of ?T "[None, Some [?bold]]" ?fm1 ?st1,
        THEN conjunct2, THEN conjunct2, THEN conjunct1] h by blast
  have c1: "is_candidate ''Ioskeley Mono'' ''/f/IoskeleyMono-Bold.ttf''"
    and c2: "\<not> is_candidate ''Ioskeley Mono'' ''/f/DejaVuSans.ttf''"
    and c3: "\<not> clean_name ''/f/IoskeleyMono-Bold.ttf''"
    by code_simp+
  have n: "[] \<notin> set [''/f/IoskeleyMono-Bold.ttf'', ''/f/DejaVuSans.ttf'']" by simp
  have c: "found_path ''Ioskeley Mono'' [''/f/IoskeleyMono-Bold.ttf'', ''/f/DejaVuSans.ttf'']
     = Some ''/f/IoskeleyMono-Bold.ttf''"
    using font_resolution [where system_fonts = "[''/f/IoskeleyMono-Bold.ttf'', ''/f/DejaVuSans.ttf'']"
        and font_name = "''Ioskeley Mono''",
        THEN conjunct2, THEN conjunct2, THEN conjunct2, THEN conjunct1, rule_format, OF n]
      c1 c2 c3 by (simp add: font_candidates_def)
  have e: "font_candidates ''Ioskeley Mono'' [''/f/DejaVuSans.ttf''] = []"
    using c2 by (simp add: font_candidates_def)
  have l: "lower ''Ioskeley Mono'' \<notin> set (map lower (ttflist ?fm2))" by code_simp
  have d: "found_path ''Ioskeley Mono'' [''/f/DejaVuSans.ttf''] = None \<and>
     (\<exists>st'. font_handling ?fm2 ''Ioskeley Mono'' ?st2 = Completed st' \<and>
          font_family st' = ''sans-serif'')"
    using font_resolution [where system_fonts = "[''/f/DejaVuSans.ttf'']"
        and font_name = "''Ioskeley Mono''" and fm = ?fm2 and st = ?st2,
        THEN conjunct2, THEN conjunct2, THEN conjunct2, THEN conjunct2, rule_format, OF e] l
    by simp
  from a b c d show ?thesis by blast
qed

text \<open>
  Claim C7. An exception raised while a font is registered or loaded is caught: a message
  with the text of the exception is printed, the font family is set to the generic
  fallback (\<open>monospace\<close> in the directory-search scripts, \<open>sans-serif\<close> in
  peak\_detect\_chart.py), and the font section completes, so that the script goes on.
\<close>

theorem font_errors_caught:
  "(\<exists>st'. font_section fm target search_dirs st = Completed st')
   \<and> (found_file target search_dirs = Some file \<and>
        (addfont fm file = Inl (Exception e) \<or>
         (addfont fm file = Inr () \<and> get_name fm file = Inl (Exception e))) \<longrightarrow>
        (\<exists>st'. font_section fm target search_dirs st = Completed st' \<and>
               font_family st' = ''monospace'' \<and>
               (''Error loading font file: '' @ e) \<in> set (stdout st')))
   \<and> (\<exists>st'. font_handling fm font_name st = Completed st')
   \<and> (lower font_name \<notin> set (map lower (ttflist fm)) \<and>
        (findSystemFonts fm = Inl (Exception e) \<or>
         (\<exists>system_fonts p. findSystemFonts fm = Inr system_fonts \<and>
             found_path font_name system_fonts = Some p \<and> p \<noteq> [] \<and>
             (addfont fm p = Inl (Exception e) \<or>
              (addfont fm p = Inr () \<and> get_name fm p = Inl (Exception e))))) \<longrightarrow>
        (\<exists>st'. font_handling fm font_name st = Completed st' \<and>
               font_family st' = ''sans-serif'' \<and>
               (''Font warning: '' @ e @ ''. Falling back to default.'') \<in> set (stdout st')))"
proof (intro conjI impI)
  show "\<exists>st'. font_section fm target search_dirs st = Completed st'"
    by (rule font_section_completes)
  show "\<exists>st'. font_handling fm font_name st = Completed st'"
    by (rule font_handling_completes)
next
  assume a: "found_file target search_dirs = Some file \<and>
        (addfont fm file = Inl (Exception e) \<or>
         (addfont fm file = Inr () \<and> get_name fm file = Inl (Exception e)))"
  then have f: "found_file target search_dirs = Some file" by simp
  from a have "load_font fm file (print (''Searching for font files matching '' @ [CHR 0x27] @ target
                         @ [CHR 0x27] @ ''...'') st) = Raised (Exception e) (print (''Searching for font files matching '' @ [CHR 0x27] @ target
                         @ [CHR 0x27] @ ''...'') st)"
    by (intro load_font_raised) simp
  from font_section_load_raised [OF f this]
  show "\<exists>st'. font_section fm target search_dirs st = Completed st' \<and>
               font_family st' = ''monospace'' \<and>
               (''Error loading font file: '' @ e) \<in> set (stdout st')" .
next
  assume a: "lower font_name \<notin> set (map lower (ttflist fm)) \<and>
        (findSystemFonts fm = Inl (Exception e) \<or>
         (\<exists>system_fonts p. findSystemFonts fm = Inr system_fonts \<and>
             found_path font_name system_fonts = Some p \<and> p \<noteq> [] \<and>
             (addfont fm p = Inl (Exception e) \<or>
              (addfont fm p = Inr () \<and> get_name fm p = Inl (Exception e)))))"
  then have "\<exists>st1. font_try_block fm font_name st = Raised (Exception e) st1"
    by (intro font_try_block_raised) simp_all
  then obtain st1 where "font_try_block fm font_name st = Raised (Exception e) st1" ..
  from font_handling_raised [OF this]
  show "\<exists>st'. font_handling fm font_name st = Completed st' \<and>
               font_family st' = ''sans-serif'' \<and>
               (''Font warning: '' @ e @ ''. Falling back to default.'') \<in> set (stdout st')" .
qed

theorem font_errors_caught_witness:
  "(\<exists>st'. font_section \<lparr>ttflist = [], findSystemFonts = Inr [''/f/IoskeleyMono_Regular.ttf''],
                          addfont = (\<lambda>p. Inl (Exception ''cannot open resource'')),
                          get_name = (\<lambda>p. Inr ''Ioskeley Mono'')\<rparr>
            ''IoskeleyMono_Regular'' [Some [''/f/IoskeleyMono_Regular.ttf'']]
            \<lparr>font_family = ''sans-serif'', stdout = []\<rparr> = Completed st' \<and>
          font_family st' = ''monospace'' \<and>
          ''Error loading font file: cannot open resource'' \<in> set (stdout st')) \<and>
   (\<exists>st'. font_handling \<lparr>ttflist = [], findSystemFonts = Inr [''/f/IoskeleyMono_Regular.ttf''],
                          addfont = (\<lambda>p. Inl (Exception ''cannot open resource'')),
                          get_name = (\<lambda>p. Inr ''Ioskeley Mono'')\<rparr>
            ''Ioskeley Mono'' \<lparr>font_family = ''serif'', stdout = []\<rparr> = Completed st' \<and>
          font_family st' = ''sans-serif'' \<and>
          ''Font warning: cannot open resource. Falling back to default.'' \<in> set (stdout st'))"
proof -
  let ?file = "''/f/IoskeleyMono_Regular.ttf''"
  let ?fm = "\<lparr>ttflist = [], findSystemFonts = Inr [?file],
               addfont = (\<lambda>p. Inl (Exception ''cannot open resource'')),
               get_name = (\<lambda>p. Inr ''Ioskeley Mono'')\<rparr>"
  let ?st1 = "\<lparr>font_family = ''sans-serif'', stdout = []\<rparr>"
  let ?st2 = "\<lparr>font_family = ''serif'', stdout = []\<rparr>"
  have f: "found_file ''IoskeleyMono_Regular'' [Some [?file]] = Some ?file" by code_simp
  have p: "found_path ''Ioskeley Mono'' [?file] = Some ?file" by code_simp
  have h1: "found_file ''IoskeleyMono_Regular'' [Some [?file]] = Some ?file \<and>
        (addfont ?fm ?file = Inl (Exception ''cannot open resource'') \<or>
         (addfont ?fm ?file = Inr () \<and> get_name ?fm ?file = Inl (Exception ''cannot open resource'')))"
    using f by simp
  have h2: "lower ''Ioskeley Mono'' \<notin> set (map lower (ttflist ?fm)) \<and>
        (findSystemFonts ?fm = Inl (Exception ''cannot open resource'') \<or>
         (\<exists>system_fonts p. findSystemFonts ?fm = Inr system_fonts \<and>
             found_path ''Ioskeley Mono'' system_fonts = Some p \<and> p \<noteq> [] \<and>
             (addfont ?fm p = Inl (Exception ''cannot open resource'') \<or>
              (addfont ?fm p = Inr () \<and> get_name ?fm p = Inl (Exception ''cannot open resource'')))))"
    using p by simp
  note t = font_errors_caught [of ?fm "''IoskeleyMono_Regular''" "[Some [?file]]" ?st1 ?file
      "''cannot open resource''" "''Ioskeley Mono''"]
  note u = font_errors_caught [of ?fm _ _ ?st2 _ "''cannot open resource''" "''Ioskeley Mono''"]
  from t [THEN conjunct2, THEN conjunct1, rule_format, OF h1]
    u [THEN conjunct2, THEN conjunct2, THEN conjunct2, rule_format, OF h2]
  show ?thesis by simp
qed

end
